theory Spec2Isabelle
  imports Main "HOL-Library.Multiset" "HOL-Library.Product_Lexorder"
begin

section \<open>Range algebra (util.ts)\<close>

text \<open>
  A block range is a closed interval of block numbers. Block numbers are JavaScript
  numbers that hold integers; they are modelled as \<open>int\<close>.
\<close>

record BlockRange =
  fromBlock :: int
  toBlock :: int

text \<open>The block numbers a range covers, and those a list of ranges covers.\<close>

definition blocks :: "BlockRange \<Rightarrow> int set" where
  "blocks r = {fromBlock r .. toBlock r}"

definition blocks_of :: "BlockRange list \<Rightarrow> int set" where
  "blocks_of rs = (\<Union>r \<in> set rs. blocks r)"

definition valid :: "BlockRange \<Rightarrow> bool" where
  "valid r = (fromBlock r \<le> toBlock r)"

text \<open>
  \<open>subtractRanges\<close>: the body of the inner loop, for one range \<open>x\<close> of \<open>have\<close> and one
  remaining range \<open>z_\<close>, gives the ranges pushed to \<open>newZ\<close>.
\<close>

definition subtractOne :: "BlockRange \<Rightarrow> BlockRange \<Rightarrow> BlockRange list" where
  "subtractOne x z =
     (if toBlock x < fromBlock z \<or> fromBlock x > toBlock z then [z]
      else (if fromBlock x > fromBlock z
              then [\<lparr>fromBlock = fromBlock z, toBlock = fromBlock x - 1\<rparr>] else [])
         @ (if toBlock x < toBlock z
              then [\<lparr>fromBlock = toBlock x + 1, toBlock = toBlock z\<rparr>] else []))"

text \<open>The outer loop: \<open>z\<close> is replaced by \<open>newZ\<close> for every \<open>x\<close> of \<open>have\<close>, in order.\<close>

fun subtractLoop :: "BlockRange list \<Rightarrow> BlockRange list \<Rightarrow> BlockRange list" where
  "subtractLoop z [] = z"
| "subtractLoop z (x # have) = subtractLoop (concat (map (subtractOne x) z)) have"

definition subtractRanges :: "BlockRange \<Rightarrow> BlockRange list \<Rightarrow> BlockRange list" where
  "subtractRanges want have = subtractLoop [want] have"

text \<open>
  \<open>mergeRanges\<close>: the sweep over the sorted ranges, with \<open>mergedRanges\<close> and
  \<open>currentRange\<close> as accumulators. \<open>Array.prototype.sort\<close> is stable, as is \<open>sort_key\<close>.
  The in-place update of \<open>currentRange.toBlock\<close> is the record update below.
\<close>

fun sweep :: "BlockRange list \<Rightarrow> BlockRange \<Rightarrow> BlockRange list \<Rightarrow> BlockRange list" where
  "sweep mergedRanges currentRange [] = mergedRanges @ [currentRange]"
| "sweep mergedRanges currentRange (nextRange # rest) =
     (if fromBlock nextRange \<le> toBlock currentRange + 1
      then sweep mergedRanges
             (currentRange\<lparr>toBlock := max (toBlock currentRange) (toBlock nextRange)\<rparr>) rest
      else sweep (mergedRanges @ [currentRange]) nextRange rest)"

definition mergeRanges :: "BlockRange list \<Rightarrow> BlockRange list" where
  "mergeRanges ranges =
     (if length ranges \<le> 1 then ranges
      else let sortedRanges = sort_key fromBlock ranges
           in sweep [] (hd sortedRanges) (tl sortedRanges))"

text \<open>Separation of two ranges by at least one uncovered block, in ascending order.\<close>

definition apart :: "BlockRange \<Rightarrow> BlockRange \<Rightarrow> bool" where
  "apart a b = (toBlock a + 1 < fromBlock b)"

definition disjoint :: "BlockRange \<Rightarrow> BlockRange \<Rightarrow> bool" where
  "disjoint a b = (blocks a \<inter> blocks b = {})"

text \<open>Two ranges overlap or are adjacent: no uncovered block lies between them.\<close>

definition touching :: "BlockRange \<Rightarrow> BlockRange \<Rightarrow> bool" where
  "touching a b = (fromBlock b \<le> toBlock a + 1 \<and> fromBlock a \<le> toBlock b + 1)"

text \<open>Strict order of two ranges: the first ends before the second starts.\<close>

definition before :: "BlockRange \<Rightarrow> BlockRange \<Rightarrow> bool" where
  "before a b = (toBlock a < fromBlock b)"

section \<open>The provider, the store and the effects of LogCache (index.ts)\<close>

text \<open>
  A block tag is a number or a name such as \<open>latest\<close>; a filter carries an optional
  tag for each bound besides its address and topics.
\<close>

datatype BlockTag = Num int | Tag string

record Filter =
  address :: "string option"
  topics :: "string list"
  fromBlockTag :: "BlockTag option"
  toBlockTag :: "BlockTag option"

text \<open>
  An \<open>ethers.Log\<close>: its block number, its index and the rest of its content. A row of
  the \<open>logs\<close> table stores the log as JSON in \<open>data\<close>; reading a row back yields the
  log that was written (\<open>new ethers.Log(JSON.parse(row.data), provider)\<close>).
\<close>

record Log =
  log_blockNumber :: int
  log_index :: int
  log_rest :: string

record LogEntry =
  filterId :: string
  blockNumber :: int
  logIndex :: int
  data :: Log

text \<open>The two tables. A row of \<open>fetched_ranges\<close> is a filter id with a range.\<close>

record Database =
  logs :: "LogEntry list"
  fetched_ranges :: "(string \<times> BlockRange) list"

text \<open>
  The errors the code raises, named as in the specification:
  \<open>InvalidArgument\<close> is \<open>Invalid page size\<close>, \<open>InvalidBlock\<close> is \<open>Invalid block\<close>,
  \<open>CannotGetFinalized\<close> is \<open>Cannot get finalized block number\<close>, \<open>FinalityViolation\<close> is
  \<open>toBlock is not finalized\<close>. The other three come from the collaborators: a rejected
  \<open>provider.getLogs\<close>, a failed store statement, a callback that throws.
\<close>

datatype error = InvalidArgument | InvalidBlock | CannotGetFinalized | FinalityViolation
  | UpstreamFetchFailure | StoreFailure | CallbackFailure

text \<open>
  The provider as one call of the library sees it: \<open>getBlock(tag)?.number\<close>, \<open>getLogs\<close>
  (\<open>None\<close> when the request is rejected) and the identity that \<open>getFilterId\<close> hashes from
  the chain id, the address and the topics. The chain does not advance during a call,
  and the identity is taken as computed: a rejection of \<open>_getFilter\<close> or \<open>getNetwork\<close> is
  not modelled.
\<close>

record Provider =
  provider_getBlock :: "string \<Rightarrow> int option"
  provider_getLogs :: "Filter \<Rightarrow> Log list option"
  provider_filterId :: "string option \<Rightarrow> string list \<Rightarrow> string"

text \<open>
  What a run leaves behind besides the store: each \<open>provider.getLogs\<close> request and each
  call of a caller's callback, in order.
\<close>

datatype event =
    RpcGetLogs Filter
  | FetchLogsBatch "Log list" "Log list" int int
  | FetchLogsToCacheBatch "Log list" "Log list" int int "BlockRange list" nat int int

text \<open>
  The state: the store, the outcomes of the store statements still to come (\<open>True\<close>: the
  statement fails; none left: every later statement succeeds), the events so far, and
  the counter \<open>totalScannedBlocks\<close> that the callbacks of \<open>fetchLogsToCache\<close> share.
\<close>

record World =
  db :: Database
  faults :: "bool list"
  trace :: "event list"
  totalScannedBlocks :: int

text \<open>An effectful computation returns an error or a value, and the state it leaves.\<close>

type_synonym 'a io = "World \<Rightarrow> (error + 'a) \<times> World"

definition io_return :: "'a \<Rightarrow> 'a io" where
  "io_return a w = (Inr a, w)"

definition io_throw :: "error \<Rightarrow> 'a io" where
  "io_throw e w = (Inl e, w)"

definition io_bind :: "'a io \<Rightarrow> ('a \<Rightarrow> 'b io) \<Rightarrow> 'b io" where
  "io_bind m f w = (case m w of (Inl e, w') \<Rightarrow> (Inl e, w') | (Inr a, w') \<Rightarrow> f a w')"

definition io_lift :: "error + 'a \<Rightarrow> 'a io" where
  "io_lift r w = (r, w)"

subsection \<open>better-sqlite3\<close>

text \<open>
  \<open>Statement.run\<close> and \<open>Statement.all\<close>: the statement takes the next outcome; when it
  fails it throws and leaves the store as it was.
\<close>

definition stmt_run :: "(Database \<Rightarrow> Database) \<Rightarrow> unit io" where
  "stmt_run upd w =
     (case faults w of
        [] \<Rightarrow> (Inr (), w\<lparr>db := upd (db w)\<rparr>)
      | failing # later \<Rightarrow>
          if failing then (Inl StoreFailure, w\<lparr>faults := later\<rparr>)
          else (Inr (), w\<lparr>db := upd (db w), faults := later\<rparr>))"

definition stmt_all :: "(Database \<Rightarrow> 'a) \<Rightarrow> 'a io" where
  "stmt_all q w =
     (case faults w of
        [] \<Rightarrow> (Inr (q (db w)), w)
      | failing # later \<Rightarrow>
          if failing then (Inl StoreFailure, w\<lparr>faults := later\<rparr>)
          else (Inr (q (db w)), w\<lparr>faults := later\<rparr>))"

text \<open>
  \<open>db.transaction(fn)()\<close>: the function runs between BEGIN and COMMIT; when it throws,
  the store is rolled back to its state at BEGIN and the error is thrown again.
\<close>

definition transaction :: "'a io \<Rightarrow> 'a io" where
  "transaction body w =
     (case body w of
        (Inl e, w') \<Rightarrow> (Inl e, w'\<lparr>db := db w\<rparr>)
      | (Inr a, w') \<Rightarrow> (Inr a, w'))"

subsection \<open>The statements of LogCache\<close>

text \<open>\<open>INSERT OR IGNORE\<close> under \<open>UNIQUE(filterId, blockNumber, logIndex)\<close>.\<close>

definition insertLogRow :: "LogEntry \<Rightarrow> Database \<Rightarrow> Database" where
  "insertLogRow row d =
     (if list_ex (\<lambda>r. filterId r = filterId row \<and> blockNumber r = blockNumber row
                      \<and> logIndex r = logIndex row) (logs d)
      then d else d\<lparr>logs := logs d @ [row]\<rparr>)"

definition logRow :: "string \<Rightarrow> Log \<Rightarrow> LogEntry" where
  "logRow fid log =
     \<lparr>filterId = fid, blockNumber = log_blockNumber log, logIndex = log_index log, data = log\<rparr>"

fun insertLogs :: "Log list \<Rightarrow> string \<Rightarrow> unit io" where
  "insertLogs [] fid = io_return ()"
| "insertLogs (log # rest) fid =
     io_bind (stmt_run (insertLogRow (logRow fid log))) (\<lambda>_. insertLogs rest fid)"

text \<open>The rows \<open>_selectLogs\<close> returns, in the order of \<open>ORDER BY blockNumber, logIndex\<close>.\<close>

definition selectedLogs :: "string \<Rightarrow> int \<Rightarrow> int \<Rightarrow> Database \<Rightarrow> LogEntry list" where
  "selectedLogs fid from to d =
     sort_key (\<lambda>r. (blockNumber r, logIndex r))
       (filter (\<lambda>r. filterId r = fid \<and> from \<le> blockNumber r \<and> blockNumber r \<le> to) (logs d))"

definition selectLogs :: "string \<Rightarrow> int \<Rightarrow> int \<Rightarrow> LogEntry list io" where
  "selectLogs fid from to = stmt_all (selectedLogs fid from to)"

definition insertRangeRow :: "string \<Rightarrow> int \<Rightarrow> int \<Rightarrow> Database \<Rightarrow> Database" where
  "insertRangeRow fid from to d =
     d\<lparr>fetched_ranges := fetched_ranges d @ [(fid, \<lparr>fromBlock = from, toBlock = to\<rparr>)]\<rparr>"

definition insertRange :: "string \<Rightarrow> int \<Rightarrow> int \<Rightarrow> unit io" where
  "insertRange fid from to = stmt_run (insertRangeRow fid from to)"

text \<open>The rows \<open>_selectRanges\<close> returns, in the order of \<open>ORDER BY fromBlock\<close>.\<close>

definition selectedRanges :: "string \<Rightarrow> Database \<Rightarrow> BlockRange list" where
  "selectedRanges fid d =
     sort_key fromBlock (map snd (filter (\<lambda>row. fst row = fid) (fetched_ranges d)))"

definition selectRanges :: "string \<Rightarrow> BlockRange list io" where
  "selectRanges fid = stmt_all (selectedRanges fid)"

definition deleteRanges :: "string \<Rightarrow> Database \<Rightarrow> Database" where
  "deleteRanges fid d = d\<lparr>fetched_ranges := filter (\<lambda>row. fst row \<noteq> fid) (fetched_ranges d)\<rparr>"

fun insertRanges :: "string \<Rightarrow> BlockRange list \<Rightarrow> unit io" where
  "insertRanges fid [] = io_return ()"
| "insertRanges fid (r # rest) =
     io_bind (insertRange fid (fromBlock r) (toBlock r)) (\<lambda>_. insertRanges fid rest)"

definition replaceRanges :: "string \<Rightarrow> BlockRange list \<Rightarrow> unit io" where
  "replaceRanges fid ranges =
     io_bind (stmt_run (deleteRanges fid)) (\<lambda>_. insertRanges fid ranges)"

definition getMissingRanges :: "string \<Rightarrow> BlockRange \<Rightarrow> BlockRange list io" where
  "getMissingRanges fid want =
     io_bind (selectRanges fid) (\<lambda>have. io_return (subtractRanges want have))"

definition tidyUpRanges :: "string \<Rightarrow> unit io" where
  "tidyUpRanges fid =
     transaction
       (io_bind (selectRanges fid) (\<lambda>ranges.
          if length ranges = 0 then io_return ()
          else replaceRanges fid (mergeRanges ranges)))"

subsection \<open>Filters and block tags\<close>

text \<open>\<open>tag || d\<close>: an absent tag, the number 0 and the empty string give the default.\<close>

definition orDefault :: "BlockTag option \<Rightarrow> BlockTag \<Rightarrow> BlockTag" where
  "orDefault tag d =
     (case tag of
        None \<Rightarrow> d
      | Some (Num n) \<Rightarrow> if n = 0 then d else Num n
      | Some (Tag s) \<Rightarrow> if s = [] then d else Tag s)"

definition tagToNumber :: "Provider \<Rightarrow> BlockTag \<Rightarrow> error + int" where
  "tagToNumber p tag =
     (case tag of
        Num n \<Rightarrow> Inr n
      | Tag s \<Rightarrow> (case provider_getBlock p s of None \<Rightarrow> Inl InvalidBlock | Some y \<Rightarrow> Inr y))"

definition getFinalizedBlockNumber :: "Provider \<Rightarrow> error + int" where
  "getFinalizedBlockNumber p =
     (case provider_getBlock p ''finalized'' of
        None \<Rightarrow> Inl CannotGetFinalized
      | Some n \<Rightarrow> Inr n)"

text \<open>
  \<open>toStrictFilter\<close> returns the filter with both bounds as numbers; the model returns
  the two numbers, and \<open>withRange\<close> puts a range into a filter (\<open>{...filter, ...range}\<close>).
\<close>

definition toStrictFilter :: "Provider \<Rightarrow> Filter \<Rightarrow> BlockTag \<Rightarrow> error + BlockRange" where
  "toStrictFilter p f defaultToBlock =
     (case tagToNumber p (orDefault (fromBlockTag f) (Tag ''earliest'')) of
        Inl e \<Rightarrow> Inl e
      | Inr from \<Rightarrow>
          (case tagToNumber p (orDefault (toBlockTag f) defaultToBlock) of
             Inl e \<Rightarrow> Inl e
           | Inr to \<Rightarrow> Inr \<lparr>fromBlock = from, toBlock = to\<rparr>))"

definition withRange :: "Filter \<Rightarrow> int \<Rightarrow> int \<Rightarrow> Filter" where
  "withRange f from to = f\<lparr>fromBlockTag := Some (Num from), toBlockTag := Some (Num to)\<rparr>"

definition getFilterId :: "Provider \<Rightarrow> Filter \<Rightarrow> string" where
  "getFilterId p f = provider_filterId p (address f) (topics f)"

subsection \<open>Callbacks\<close>

text \<open>
  A caller's callback sees its arguments and returns (\<open>True\<close>) or throws (\<open>False\<close>); the
  call is recorded. \<open>fetchLogs\<close> itself takes any handler, since \<open>_fetchRangeToCache\<close>
  passes it one that writes to the store.
\<close>

type_synonym FetchLogsBatchCallback = "Log list \<Rightarrow> Log list \<Rightarrow> int \<Rightarrow> int \<Rightarrow> bool"

type_synonym FetchLogsToCacheBatchCallback =
  "Log list \<Rightarrow> Log list \<Rightarrow> int \<Rightarrow> int \<Rightarrow> BlockRange list \<Rightarrow> nat \<Rightarrow> int \<Rightarrow> int \<Rightarrow> bool"

type_synonym handler = "Log list \<Rightarrow> Log list \<Rightarrow> int \<Rightarrow> int \<Rightarrow> unit io"

definition userBatch :: "FetchLogsBatchCallback \<Rightarrow> handler" where
  "userBatch cb allLogs thisBatchLogs thisBatchFrom thisBatchTo w =
     (let w' = w\<lparr>trace := trace w @ [FetchLogsBatch allLogs thisBatchLogs thisBatchFrom thisBatchTo]\<rparr>
      in if cb allLogs thisBatchLogs thisBatchFrom thisBatchTo
         then (Inr (), w') else (Inl CallbackFailure, w'))"

text \<open>\<open>batchCallback?.(...)\<close>\<close>

definition callOptional :: "handler option \<Rightarrow> handler" where
  "callOptional batchCallback allLogs thisBatchLogs thisBatchFrom thisBatchTo =
     (case batchCallback of
        None \<Rightarrow> io_return ()
      | Some h \<Rightarrow> h allLogs thisBatchLogs thisBatchFrom thisBatchTo)"

subsection \<open>fetchLogs\<close>

text \<open>
  The \<open>while\<close> loop of \<open>fetchLogs\<close>; \<open>allLogs\<close> is its array \<open>logs\<close>. The loop is entered only after the page size has
  been checked; the guard \<open>1 \<le> pageSize\<close> repeats that check so that the recursion is
  total.
\<close>

function fetchLoop ::
  "Provider \<Rightarrow> Filter \<Rightarrow> int \<Rightarrow> handler option \<Rightarrow> int \<Rightarrow> int \<Rightarrow> Log list \<Rightarrow> Log list io" where
  "fetchLoop p f pageSize batchCallback to from allLogs w =
     (if from \<le> to \<and> 1 \<le> pageSize then
        let thisToBlock = min (from + pageSize - 1) to;
            w1 = w\<lparr>trace := trace w @ [RpcGetLogs (withRange f from thisToBlock)]\<rparr>
        in (case provider_getLogs p (withRange f from thisToBlock) of
              None \<Rightarrow> (Inl UpstreamFetchFailure, w1)
            | Some thisBatchLogs \<Rightarrow>
                (case callOptional batchCallback (allLogs @ thisBatchLogs) thisBatchLogs
                        from thisToBlock w1 of
                   (Inl e, w2) \<Rightarrow> (Inl e, w2)
                 | (Inr u, w2) \<Rightarrow>
                     fetchLoop p f pageSize batchCallback to (thisToBlock + 1)
                       (allLogs @ thisBatchLogs) w2))
      else (Inr allLogs, w))"
  by pat_completeness auto
termination
  by (relation "measure (\<lambda>(p, f, pageSize, batchCallback, to, from, allLogs, w). nat (to + 1 - from))")
     auto

declare fetchLoop.simps [simp del]

definition fetchLogs :: "Provider \<Rightarrow> Filter \<Rightarrow> int \<Rightarrow> handler option \<Rightarrow> Log list io" where
  "fetchLogs p f pageSize batchCallback =
     (if pageSize < 1 then io_throw InvalidArgument
      else io_bind (io_lift (toStrictFilter p f (Tag ''latest''))) (\<lambda>strictFilter.
             fetchLoop p f pageSize batchCallback
               (toBlock strictFilter) (fromBlock strictFilter) []))"

subsection \<open>fetchLogsToCache\<close>

text \<open>The handler \<open>_fetchRangeToCache\<close> gives to \<open>fetchLogs\<close>.\<close>

definition cachePage :: "string \<Rightarrow> handler option \<Rightarrow> handler" where
  "cachePage fid batchCallback allLogs thisBatchLogs thisBatchFrom thisBatchTo =
     io_bind
       (transaction
          (io_bind (insertLogs thisBatchLogs fid)
             (\<lambda>_. insertRange fid thisBatchFrom thisBatchTo)))
       (\<lambda>_. callOptional batchCallback allLogs thisBatchLogs thisBatchFrom thisBatchTo)"

definition fetchRangeToCache ::
  "Provider \<Rightarrow> Filter \<Rightarrow> int \<Rightarrow> handler option \<Rightarrow> unit io" where
  "fetchRangeToCache p strictFilter pageSize batchCallback =
     io_bind
       (fetchLogs p strictFilter pageSize
          (Some (cachePage (getFilterId p strictFilter) batchCallback)))
       (\<lambda>_. io_return ())"

text \<open>
  The handler \<open>fetchLogsToCache\<close> gives to \<open>_fetchRangeToCache\<close> for the missing range
  of index \<open>i\<close>: it adds the page to \<open>totalScannedBlocks\<close> and calls the caller's
  callback, if there is one.
\<close>

definition progressBatch ::
  "FetchLogsToCacheBatchCallback option \<Rightarrow> BlockRange list \<Rightarrow> nat \<Rightarrow> int \<Rightarrow> handler" where
  "progressBatch batchCallback missingRanges i blocksToScan
       allLogs thisBatchLogs thisBatchFrom thisBatchTo w =
     (let w1 = w\<lparr>totalScannedBlocks :=
                   totalScannedBlocks w + (thisBatchTo - thisBatchFrom + 1)\<rparr>
      in case batchCallback of
           None \<Rightarrow> (Inr (), w1)
         | Some cb \<Rightarrow>
             let w2 = w1\<lparr>trace := trace w1 @
                       [FetchLogsToCacheBatch allLogs thisBatchLogs thisBatchFrom thisBatchTo
                          missingRanges i (totalScannedBlocks w1) blocksToScan]\<rparr>
             in if cb allLogs thisBatchLogs thisBatchFrom thisBatchTo
                     missingRanges i (totalScannedBlocks w1) blocksToScan
                then (Inr (), w2) else (Inl CallbackFailure, w2))"

text \<open>The \<open>for\<close> loop over the missing ranges, from index \<open>i\<close>.\<close>

fun fetchMissing ::
  "Provider \<Rightarrow> Filter \<Rightarrow> int \<Rightarrow> FetchLogsToCacheBatchCallback option \<Rightarrow> BlockRange list \<Rightarrow> int
     \<Rightarrow> nat \<Rightarrow> BlockRange list \<Rightarrow> unit io" where
  "fetchMissing p f pageSize batchCallback missingRanges blocksToScan i [] = io_return ()"
| "fetchMissing p f pageSize batchCallback missingRanges blocksToScan i (r # rest) =
     io_bind
       (fetchRangeToCache p (withRange f (fromBlock r) (toBlock r)) pageSize
          (Some (progressBatch batchCallback missingRanges i blocksToScan)))
       (\<lambda>_. fetchMissing p f pageSize batchCallback missingRanges blocksToScan (Suc i) rest)"

definition resetTotalScannedBlocks :: "unit io" where
  "resetTotalScannedBlocks w = (Inr (), w\<lparr>totalScannedBlocks := 0\<rparr>)"

definition fetchLogsToCache ::
  "Provider \<Rightarrow> Filter \<Rightarrow> int \<Rightarrow> FetchLogsToCacheBatchCallback option \<Rightarrow> unit io" where
  "fetchLogsToCache p f pageSize batchCallback =
     (if pageSize < 1 then io_throw InvalidArgument
      else
        io_bind (io_lift (toStrictFilter p f (Tag ''finalized''))) (\<lambda>strictFilter.
        io_bind (io_lift (getFinalizedBlockNumber p)) (\<lambda>lastFinalizedBlock.
        if toBlock strictFilter > lastFinalizedBlock then io_throw FinalityViolation
        else
          io_bind (tidyUpRanges (getFilterId p f)) (\<lambda>_.
          io_bind (getMissingRanges (getFilterId p f) strictFilter) (\<lambda>missingRanges.
          io_bind resetTotalScannedBlocks (\<lambda>_.
          io_bind
            (fetchMissing p f pageSize batchCallback missingRanges
               (foldl (\<lambda>acc r. acc + toBlock r - fromBlock r + 1) 0 missingRanges)
               0 missingRanges) (\<lambda>_.
          tidyUpRanges (getFilterId p f))))))))"

subsection \<open>readLogsFromCache and getLogs\<close>

definition readLogsFromCache :: "Provider \<Rightarrow> Filter \<Rightarrow> Log list io" where
  "readLogsFromCache p f =
     io_bind (io_lift (toStrictFilter p f (Tag ''latest''))) (\<lambda>strictFilter.
     io_bind (selectLogs (getFilterId p f) (fromBlock strictFilter) (toBlock strictFilter))
       (\<lambda>rows. io_return (map data rows)))"

definition getLogs ::
  "Provider \<Rightarrow> Filter \<Rightarrow> int \<Rightarrow> FetchLogsToCacheBatchCallback option
     \<Rightarrow> FetchLogsBatchCallback option \<Rightarrow> Log list io" where
  "getLogs p f pageSize finalizedLogsCallback unfinalizedLogsCallback =
     (case provider_getBlock p ''finalized'' of
        None \<Rightarrow> io_throw InvalidBlock
      | Some lastFinalizedBlock \<Rightarrow>
          io_bind (io_lift (toStrictFilter p f (Tag ''latest''))) (\<lambda>strictFilter.
          io_bind
            (fetchLogsToCache p
               (withRange f (fromBlock strictFilter)
                  (min (toBlock strictFilter) lastFinalizedBlock))
               pageSize finalizedLogsCallback) (\<lambda>_.
          io_bind
            (readLogsFromCache p
               (withRange f (fromBlock strictFilter)
                  (min (toBlock strictFilter) lastFinalizedBlock))) (\<lambda>cachedLogs.
          if toBlock strictFilter > lastFinalizedBlock then
            io_bind
              (fetchLogs p (withRange f (lastFinalizedBlock + 1) (toBlock strictFilter))
                 pageSize (map_option userBatch unfinalizedLogsCallback))
              (\<lambda>unfinalizedLogs. io_return (cachedLogs @ unfinalizedLogs))
          else io_return cachedLogs))))"


subsection \<open>Pages, as the specification describes them\<close>

text \<open>
  The pages of \<open>[from, to]\<close>: consecutive, each \<open>[f, min(f + pageSize - 1, to)]\<close>, the
  first starting at \<open>from\<close>. \<open>pageLogs\<close> is what the provider returns for a page, and
  \<open>batchEvents\<close> the events of a walk over the pages: one request per page, followed
  by the call of the callback (if any) with the records so far, the page's records
  and the page's bounds.
\<close>

function pages :: "int \<Rightarrow> int \<Rightarrow> int \<Rightarrow> (int \<times> int) list" where
  "pages pageSize from to =
     (if from \<le> to \<and> 1 \<le> pageSize
      then (from, min (from + pageSize - 1) to)
             # pages pageSize (min (from + pageSize - 1) to + 1) to
      else [])"
  by pat_completeness auto
termination
  by (relation "measure (\<lambda>(pageSize, from, to). nat (to + 1 - from))") auto

declare pages.simps [simp del]

definition pageLogs :: "Provider \<Rightarrow> Filter \<Rightarrow> int \<times> int \<Rightarrow> Log list" where
  "pageLogs p f pg =
     (case provider_getLogs p (withRange f (fst pg) (snd pg)) of
        None \<Rightarrow> [] | Some thisBatchLogs \<Rightarrow> thisBatchLogs)"

fun batchEvents ::
  "Provider \<Rightarrow> Filter \<Rightarrow> FetchLogsBatchCallback option \<Rightarrow> Log list \<Rightarrow> (int \<times> int) list
     \<Rightarrow> event list" where
  "batchEvents p f batchCallback soFar [] = []"
| "batchEvents p f batchCallback soFar (pg # rest) =
     RpcGetLogs (withRange f (fst pg) (snd pg))
     # (case batchCallback of
          None \<Rightarrow> []
        | Some cb \<Rightarrow> [FetchLogsBatch (soFar @ pageLogs p f pg) (pageLogs p f pg) (fst pg) (snd pg)])
     @ batchEvents p f batchCallback (soFar @ pageLogs p f pg) rest"

subsection \<open>The store after a page is committed\<close>

text \<open>
  \<open>insertLogRows\<close> is the store after the inserts of a page's records, \<open>commitPage\<close> the
  store after the records of a page and its range are in, and \<open>walkedPages\<close> the pages
  \<open>fetchLogs\<close> walks for a filter.
\<close>

definition insertLogRows :: "string \<Rightarrow> Log list \<Rightarrow> Database \<Rightarrow> Database" where
  "insertLogRows fid batch d = foldl (\<lambda>d' log. insertLogRow (logRow fid log) d') d batch"

definition commitPage :: "Provider \<Rightarrow> Filter \<Rightarrow> Database \<Rightarrow> int \<times> int \<Rightarrow> Database" where
  "commitPage p f d pg =
     insertRangeRow (getFilterId p f) (fst pg) (snd pg)
       (insertLogRows (getFilterId p f) (pageLogs p f pg) d)"

definition walkedPages :: "Provider \<Rightarrow> Filter \<Rightarrow> int \<Rightarrow> (int \<times> int) list" where
  "walkedPages p f pageSize =
     (case toStrictFilter p f (Tag ''latest'') of
        Inl e \<Rightarrow> []
      | Inr r \<Rightarrow> pages pageSize (fromBlock r) (toBlock r))"

subsection \<open>What a committed page means\<close>

text \<open>
  A record is in the store when the \<open>logs\<close> table has a row with its filter id, block
  number and index. A page is committed when its records are in the store and its
  exact range is the one row added to \<open>fetched_ranges\<close>, the rows the \<open>logs\<close> table had
  are still there, in place, and every row added to it is a record of the page.
  \<open>pagesCommitted\<close> says the same of a list of pages, range rows in page order.
\<close>

definition hasRecord :: "string \<Rightarrow> Log \<Rightarrow> Database \<Rightarrow> bool" where
  "hasRecord fid log d =
     list_ex (\<lambda>r. filterId r = fid \<and> blockNumber r = log_blockNumber log
                  \<and> logIndex r = log_index log) (logs d)"

definition hasRecords :: "string \<Rightarrow> Log list \<Rightarrow> Database \<Rightarrow> bool" where
  "hasRecords fid batch d = list_all (\<lambda>log. hasRecord fid log d) batch"

definition rangeRow :: "string \<Rightarrow> int \<times> int \<Rightarrow> string \<times> BlockRange" where
  "rangeRow fid pg = (fid, \<lparr>fromBlock = fst pg, toBlock = snd pg\<rparr>)"

definition pageCommitted ::
  "string \<Rightarrow> Log list \<Rightarrow> int \<Rightarrow> int \<Rightarrow> Database \<Rightarrow> Database \<Rightarrow> bool" where
  "pageCommitted fid batch from to d d' =
     (hasRecords fid batch d'
      \<and> fetched_ranges d' = fetched_ranges d @ [rangeRow fid (from, to)]
      \<and> take (length (logs d)) (logs d') = logs d
      \<and> list_all (\<lambda>row. row \<in> logRow fid ` set batch) (drop (length (logs d)) (logs d')))"

definition pagesCommitted ::
  "Provider \<Rightarrow> Filter \<Rightarrow> (int \<times> int) list \<Rightarrow> Database \<Rightarrow> Database \<Rightarrow> bool" where
  "pagesCommitted p f pgs d d' =
     (fetched_ranges d' = fetched_ranges d @ map (rangeRow (getFilterId p f)) pgs
      \<and> list_all (\<lambda>pg. hasRecords (getFilterId p f) (pageLogs p f pg) d') pgs
      \<and> take (length (logs d)) (logs d') = logs d
      \<and> list_all (\<lambda>row. \<exists>pg \<in> set pgs. row \<in> logRow (getFilterId p f) ` set (pageLogs p f pg))
           (drop (length (logs d)) (logs d')))"

subsection \<open>The store after a tidy\<close>

text \<open>
  \<open>tidied\<close> is the store \<open>_tidyUpRanges\<close> leaves when no statement fails: the ranges of the
  filter deleted and the merged ranges inserted, or the store as it was when the filter
  has no range.
\<close>

definition insertRangeRows :: "string \<Rightarrow> BlockRange list \<Rightarrow> Database \<Rightarrow> Database" where
  "insertRangeRows fid ranges d =
     foldl (\<lambda>d' r. insertRangeRow fid (fromBlock r) (toBlock r) d') d ranges"

definition tidied :: "string \<Rightarrow> Database \<Rightarrow> Database" where
  "tidied fid d =
     (if length (selectedRanges fid d) = 0 then d
      else insertRangeRows fid (mergeRanges (selectedRanges fid d)) (deleteRanges fid d))"

subsection \<open>Example inputs\<close>

text \<open>
  A provider over a fixed list of logs: \<open>earliest\<close> is block 0, \<open>finalized\<close> and \<open>latest\<close>
  are as given, and \<open>getLogs\<close> returns the logs of the requested blocks.
\<close>

definition logAt :: "int \<Rightarrow> Log" where
  "logAt b = \<lparr>log_blockNumber = b, log_index = 0, log_rest = ''log''\<rparr>"

definition chainProvider :: "Log list \<Rightarrow> int \<Rightarrow> int \<Rightarrow> Provider" where
  "chainProvider chain finalized latest =
     \<lparr>provider_getBlock = (\<lambda>tag.
          if tag = ''earliest'' then Some 0
          else if tag = ''finalized'' then Some finalized
          else if tag = ''latest'' then Some latest else None),
      provider_getLogs = (\<lambda>req.
          case (fromBlockTag req, toBlockTag req) of
            (Some (Num a), Some (Num b)) \<Rightarrow>
              Some (filter (\<lambda>l. a \<le> log_blockNumber l \<and> log_blockNumber l \<le> b) chain)
          | _ \<Rightarrow> None),
      provider_filterId = (\<lambda>a t. ''filter'')\<rparr>"

definition anyFilter :: Filter where
  "anyFilter = \<lparr>address = None, topics = [], fromBlockTag = None, toBlockTag = None\<rparr>"

definition emptyWorld :: World where
  "emptyWorld =
     \<lparr>db = \<lparr>logs = [], fetched_ranges = []\<rparr>, faults = [], trace = [], totalScannedBlocks = 0\<rparr>"

text \<open>
  The state after a first \<open>getLogs\<close> over blocks 1 to 3, all finalized, with pages of two
  blocks, from an empty store.
\<close>

definition cachedWorld :: World where
  "cachedWorld =
     \<lparr>db = \<lparr>logs = [logRow ''filter'' (logAt 1), logRow ''filter'' (logAt 2),
                     logRow ''filter'' (logAt 3)],
             fetched_ranges = [(''filter'', \<lparr>fromBlock = 1, toBlock = 3\<rparr>)]\<rparr>,
      faults = [],
      trace = [RpcGetLogs (withRange anyFilter 1 2), RpcGetLogs (withRange anyFilter 3 3)],
      totalScannedBlocks = 3\<rparr>"

text \<open>
  The state after a first \<open>fetchLogsToCache\<close> without bounds while block 0 was both the
  last finalized and the latest block.
\<close>

definition blockZeroWorld :: World where
  "blockZeroWorld =
     \<lparr>db = \<lparr>logs = [logRow ''filter'' (logAt 0)],
             fetched_ranges = [(''filter'', \<lparr>fromBlock = 0, toBlock = 0\<rparr>)]\<rparr>,
      faults = [],
      trace = [RpcGetLogs (withRange anyFilter 0 0)],
      totalScannedBlocks = 1\<rparr>"

section \<open>subtractRanges\<close>

lemma in_blocks_subtractOne:
  "b \<in> blocks_of (subtractOne x z) \<longleftrightarrow> b \<in> blocks z \<and> b \<notin> blocks x"
  by (cases "fromBlock x > fromBlock z"; cases "toBlock x < toBlock z")
     (auto simp: subtractOne_def blocks_of_def blocks_def)

lemma blocks_subtractOne: "blocks_of (subtractOne x z) = blocks z - blocks x"
  using in_blocks_subtractOne by blast

lemma blocks_of_concat_subtractOne:
  "blocks_of (concat (map (subtractOne x) z)) = blocks_of z - blocks x"
proof -
  have "blocks_of (concat (map (subtractOne x) z)) = (\<Union>r \<in> set z. blocks_of (subtractOne x r))"
    by (auto simp: blocks_of_def)
  also have "\<dots> = (\<Union>r \<in> set z. blocks r - blocks x)"
    by (simp add: blocks_subtractOne)
  also have "\<dots> = blocks_of z - blocks x"
    by (auto simp: blocks_of_def)
  finally show ?thesis .
qed

lemma blocks_subtractLoop: "blocks_of (subtractLoop z have) = blocks_of z - blocks_of have"
proof (induction "have" arbitrary: z)
  case Nil
  then show ?case by (simp add: blocks_of_def)
next
  case (Cons x xs)
  have "blocks_of (subtractLoop z (x # xs)) = (blocks_of z - blocks x) - blocks_of xs"
    by (simp add: Cons.IH blocks_of_concat_subtractOne)
  also have "\<dots> = blocks_of z - blocks_of (x # xs)"
    by (auto simp: blocks_of_def)
  finally show ?case .
qed

lemma blocks_subtractRanges: "blocks_of (subtractRanges want have) = blocks want - blocks_of have"
  by (simp add: subtractRanges_def blocks_subtractLoop) (simp add: blocks_of_def)

lemma subtractOne_inside:
  assumes "valid x" "valid z" "r \<in> set (subtractOne x z)"
  shows "valid r \<and> fromBlock z \<le> fromBlock r \<and> toBlock r \<le> toBlock z"
  using assms
  by (cases "toBlock x < fromBlock z \<or> fromBlock x > toBlock z";
      cases "fromBlock x > fromBlock z"; cases "toBlock x < toBlock z")
     (auto simp: subtractOne_def valid_def)

lemma subtractOne_chain: "valid x \<Longrightarrow> sorted_wrt before (subtractOne x z)"
  by (cases "toBlock x < fromBlock z \<or> fromBlock x > toBlock z";
      cases "fromBlock x > fromBlock z"; cases "toBlock x < toBlock z")
     (auto simp: subtractOne_def valid_def before_def)

lemma concat_subtractOne_chain:
  assumes "valid x" "\<forall>r \<in> set z. valid r" "sorted_wrt before z"
  shows "sorted_wrt before (concat (map (subtractOne x) z))"
  using assms(2,3)
proof (induction z)
  case Nil
  then show ?case by simp
next
  case (Cons a z)
  have tail: "sorted_wrt before (concat (map (subtractOne x) z))"
    using Cons by simp
  have cross: "before r s"
    if "r \<in> set (subtractOne x a)" "s \<in> set (concat (map (subtractOne x) z))" for r s
  proof -
    from that(2) obtain b where b: "b \<in> set z" "s \<in> set (subtractOne x b)" by auto
    have "toBlock r \<le> toBlock a"
      using subtractOne_inside [OF assms(1) _ that(1)] Cons.prems(1) by simp
    moreover have "fromBlock b \<le> fromBlock s"
      using subtractOne_inside [OF assms(1) _ b(2)] Cons.prems(1) b(1) by simp
    moreover have "toBlock a < fromBlock b"
      using Cons.prems(2) b(1) by (simp add: before_def)
    ultimately show ?thesis by (simp add: before_def)
  qed
  show ?case
    using tail cross subtractOne_chain [OF assms(1), of a]
    by (simp add: sorted_wrt_append)
qed

lemma concat_subtractOne_valid:
  assumes "valid x" "\<forall>r \<in> set z. valid r"
  shows "\<forall>r \<in> set (concat (map (subtractOne x) z)). valid r"
proof
  fix r assume "r \<in> set (concat (map (subtractOne x) z))"
  then obtain a where a: "a \<in> set z" "r \<in> set (subtractOne x a)" by auto
  show "valid r"
    using subtractOne_inside [OF assms(1) _ a(2)] assms(2) a(1) by simp
qed

lemma subtractLoop_invariant:
  assumes "\<forall>h \<in> set have. valid h" "\<forall>r \<in> set z. valid r" "sorted_wrt before z"
  shows "(\<forall>r \<in> set (subtractLoop z have). valid r) \<and> sorted_wrt before (subtractLoop z have)"
  using assms
proof (induction "have" arbitrary: z)
  case Nil
  then show ?case by simp
next
  case (Cons x xs)
  have vx: "valid x" using Cons.prems(1) by simp
  have hs: "\<forall>h \<in> set xs. valid h" using Cons.prems(1) by simp
  have "(\<forall>r \<in> set (subtractLoop (concat (map (subtractOne x) z)) xs). valid r)
      \<and> sorted_wrt before (subtractLoop (concat (map (subtractOne x) z)) xs)"
    by (rule Cons.IH [OF hs concat_subtractOne_valid [OF vx Cons.prems(2)]
          concat_subtractOne_chain [OF vx Cons.prems(2,3)]])
  then show ?case by simp
qed

lemma before_disjoint: "before a b \<Longrightarrow> disjoint a b"
  by (auto simp: before_def disjoint_def blocks_def)

lemma disjoint_sym: "disjoint a b \<Longrightarrow> disjoint b a"
  by (auto simp: disjoint_def)

lemma chain_pairwise_disjoint:
  assumes "sorted_wrt before zs" "i < length zs" "j < length zs" "i \<noteq> j"
  shows "disjoint (zs ! i) (zs ! j)"
proof (cases "i < j")
  case True
  then show ?thesis using assms sorted_wrt_nth_less before_disjoint by blast
next
  case False
  then have "j < i" using assms(4) by simp
  then show ?thesis using assms sorted_wrt_nth_less before_disjoint disjoint_sym by blast
qed

text \<open>
  Claim C2. For a valid range \<open>want\<close> and a list \<open>have\<close> of valid ranges, the ranges
  \<open>subtractRanges\<close> returns cover exactly the blocks of \<open>want\<close> that no range of \<open>have\<close>
  covers; each of them is valid, none shares a block with a range of \<open>have\<close>, and any
  two of them at different positions are disjoint.
\<close>

theorem subtractRanges_exact:
  assumes "valid want" "\<forall>h \<in> set have. valid h"
  shows "blocks_of (subtractRanges want have) = blocks want - blocks_of have
       \<and> (\<forall>r \<in> set (subtractRanges want have). valid r)
       \<and> (\<forall>r \<in> set (subtractRanges want have). \<forall>h \<in> set have. disjoint r h)
       \<and> (\<forall>i < length (subtractRanges want have). \<forall>j < length (subtractRanges want have).
            i \<noteq> j \<longrightarrow> disjoint (subtractRanges want have ! i) (subtractRanges want have ! j))"
proof -
  let ?out = "subtractRanges want have"
  have cover: "blocks_of ?out = blocks want - blocks_of have"
    by (rule blocks_subtractRanges)
  have inv: "(\<forall>r \<in> set ?out. valid r) \<and> sorted_wrt before ?out"
    unfolding subtractRanges_def
  proof (rule subtractLoop_invariant)
    show "\<forall>h \<in> set have. valid h" by (rule assms(2))
    show "\<forall>r \<in> set [want]. valid r" using assms(1) by simp
    show "sorted_wrt before [want]" by simp
  qed
  have nohave: "disjoint r h" if "r \<in> set ?out" "h \<in> set have" for r h
  proof -
    have "blocks r \<subseteq> blocks_of ?out" using that(1) by (auto simp: blocks_of_def)
    moreover have "blocks h \<subseteq> blocks_of have" using that(2) by (auto simp: blocks_of_def)
    ultimately show ?thesis using cover by (auto simp: disjoint_def)
  qed
  show ?thesis
    using cover inv nohave chain_pairwise_disjoint by blast
qed

theorem subtractRanges_exact_witness:
  "subtractRanges \<lparr>fromBlock = 1, toBlock = 10\<rparr>
      [\<lparr>fromBlock = 3, toBlock = 4\<rparr>, \<lparr>fromBlock = 8, toBlock = 12\<rparr>]
     = [\<lparr>fromBlock = 1, toBlock = 2\<rparr>, \<lparr>fromBlock = 5, toBlock = 7\<rparr>]
   \<and> blocks_of [\<lparr>fromBlock = 1, toBlock = 2\<rparr>, \<lparr>fromBlock = 5, toBlock = 7\<rparr>]
     = blocks \<lparr>fromBlock = 1, toBlock = 10\<rparr>
       - blocks_of [\<lparr>fromBlock = 3, toBlock = 4\<rparr>, \<lparr>fromBlock = 8, toBlock = 12\<rparr>]"
proof -
  let ?w = "\<lparr>fromBlock = 1, toBlock = 10\<rparr>"
  let ?h = "[\<lparr>fromBlock = 3, toBlock = 4\<rparr>, \<lparr>fromBlock = 8, toBlock = 12\<rparr>]"
  have v: "valid ?w" "\<forall>h \<in> set ?h. valid h" by (simp_all add: valid_def)
  have m: "subtractRanges ?w ?h = [\<lparr>fromBlock = 1, toBlock = 2\<rparr>, \<lparr>fromBlock = 5, toBlock = 7\<rparr>]"
    by (simp add: subtractRanges_def subtractOne_def)
  show ?thesis using subtractRanges_exact [OF v] unfolding m by blast
qed

text \<open>
  Claim C8. Two \<open>have\<close> lists that are permutations of each other leave the same set of
  blocks when subtracted from \<open>want\<close>. Validity of the ranges is not needed.
\<close>

theorem subtractRanges_order_irrelevant:
  assumes "mset have1 = mset have2"
  shows "blocks_of (subtractRanges want have1) = blocks_of (subtractRanges want have2)"
proof -
  have "set have1 = set have2" using assms by (rule mset_eq_setD)
  then have "blocks_of have1 = blocks_of have2" by (simp add: blocks_of_def)
  then show ?thesis by (simp add: blocks_subtractRanges)
qed

theorem subtractRanges_order_irrelevant_witness:
  "blocks_of (subtractRanges \<lparr>fromBlock = 1, toBlock = 10\<rparr>
      [\<lparr>fromBlock = 3, toBlock = 4\<rparr>, \<lparr>fromBlock = 8, toBlock = 12\<rparr>])
   = blocks_of (subtractRanges \<lparr>fromBlock = 1, toBlock = 10\<rparr>
      [\<lparr>fromBlock = 8, toBlock = 12\<rparr>, \<lparr>fromBlock = 3, toBlock = 4\<rparr>])"
  by (rule subtractRanges_order_irrelevant) simp

section \<open>mergeRanges\<close>

lemma sweep_acc: "sweep acc cur rest = acc @ sweep [] cur rest"
proof (induction rest arbitrary: acc cur)
  case Nil
  then show ?case by simp
next
  case (Cons nxt rest)
  show ?case
  proof (cases "fromBlock nxt \<le> toBlock cur + 1")
    case True
    then show ?thesis using Cons.IH [of acc] by simp
  next
    case False
    have "sweep (acc @ [cur]) nxt rest = (acc @ [cur]) @ sweep [] nxt rest"
      by (rule Cons.IH)
    moreover have "sweep [cur] nxt rest = [cur] @ sweep [] nxt rest"
      by (rule Cons.IH)
    ultimately show ?thesis using False by simp
  qed
qed

lemma sweep_Cons_merge:
  "fromBlock nxt \<le> toBlock cur + 1 \<Longrightarrow>
   sweep [] cur (nxt # rest) = sweep [] (cur\<lparr>toBlock := max (toBlock cur) (toBlock nxt)\<rparr>) rest"
  by simp

lemma sweep_Cons_push:
  "\<not> fromBlock nxt \<le> toBlock cur + 1 \<Longrightarrow> sweep [] cur (nxt # rest) = cur # sweep [] nxt rest"
  using sweep_acc [of "[cur]" nxt rest] by simp

text \<open>The first output starts where the sweep started; every other start is an input's.\<close>

lemma sweep_starts:
  "\<exists>m ms. sweep [] cur rest = m # ms \<and> fromBlock m = fromBlock cur
      \<and> toBlock cur \<le> toBlock m
      \<and> fromBlock ` set ms \<subseteq> fromBlock ` set rest"
proof (induction rest arbitrary: cur)
  case Nil
  then show ?case by simp
next
  case (Cons nxt rest)
  show ?case
  proof (cases "fromBlock nxt \<le> toBlock cur + 1")
    case True
    obtain m' ms where "sweep [] (cur\<lparr>toBlock := max (toBlock cur) (toBlock nxt)\<rparr>) rest = m' # ms"
      "fromBlock m' = fromBlock cur" "max (toBlock cur) (toBlock nxt) \<le> toBlock m'"
      "fromBlock ` set ms \<subseteq> fromBlock ` set rest"
      using Cons.IH [of "cur\<lparr>toBlock := max (toBlock cur) (toBlock nxt)\<rparr>"] by auto
    then show ?thesis using True by (auto simp: sweep_Cons_merge simp del: sweep.simps)
  next
    case False
    obtain m' ms where "sweep [] nxt rest = m' # ms" "fromBlock m' = fromBlock nxt"
      "fromBlock ` set ms \<subseteq> fromBlock ` set rest"
      using Cons.IH [of nxt] by auto
    then show ?thesis using False by (auto simp: sweep_Cons_push simp del: sweep.simps)
  qed
qed

lemma sweep_from_subset:
  "fromBlock ` set (sweep [] cur rest) \<subseteq> fromBlock ` set (cur # rest)"
proof -
  obtain m ms where m: "sweep [] cur rest = m # ms" "fromBlock m = fromBlock cur"
      "fromBlock ` set ms \<subseteq> fromBlock ` set rest"
    using sweep_starts [of cur rest] by blast
  have "fromBlock ` set (m # ms) \<subseteq> fromBlock ` set (cur # rest)"
    using m(2,3) by auto
  then show ?thesis using m(1) by simp
qed

lemma sweep_apart:
  assumes "sorted (map fromBlock (cur # rest))"
  shows "sorted_wrt apart (sweep [] cur rest)"
  using assms
proof (induction rest arbitrary: cur)
  case Nil
  then show ?case by simp
next
  case (Cons nxt rest)
  show ?case
  proof (cases "fromBlock nxt \<le> toBlock cur + 1")
    case True
    have "sorted (map fromBlock (cur\<lparr>toBlock := max (toBlock cur) (toBlock nxt)\<rparr> # rest))"
      using Cons.prems by simp
    then show ?thesis using True Cons.IH by (simp only: sweep_Cons_merge)
  next
    case False
    have srt: "sorted (map fromBlock (nxt # rest))" using Cons.prems by simp
    have "apart cur r" if "r \<in> set (sweep [] nxt rest)" for r
    proof -
      have "fromBlock r \<in> fromBlock ` set (nxt # rest)"
        using sweep_from_subset [of nxt rest] that by blast
      then have "fromBlock nxt \<le> fromBlock r" using srt by auto
      then show ?thesis using False by (simp add: apart_def)
    qed
    then show ?thesis using False Cons.IH [OF srt] by (simp add: sweep_Cons_push del: sweep.simps)
  qed
qed

lemma sweep_sorted:
  assumes "sorted (map fromBlock (cur # rest))"
  shows "sorted (map fromBlock (sweep [] cur rest))"
  using assms
proof (induction rest arbitrary: cur)
  case Nil
  then show ?case by simp
next
  case (Cons nxt rest)
  show ?case
  proof (cases "fromBlock nxt \<le> toBlock cur + 1")
    case True
    have "sorted (map fromBlock (cur\<lparr>toBlock := max (toBlock cur) (toBlock nxt)\<rparr> # rest))"
      using Cons.prems by simp
    then show ?thesis using True Cons.IH by (simp only: sweep_Cons_merge)
  next
    case False
    have srt: "sorted (map fromBlock (nxt # rest))" using Cons.prems by simp
    have "fromBlock cur \<le> fromBlock r" if "r \<in> set (sweep [] nxt rest)" for r
    proof -
      have "fromBlock r \<in> fromBlock ` set (nxt # rest)"
        using sweep_from_subset [of nxt rest] that by blast
      then show ?thesis using Cons.prems by auto
    qed
    then show ?thesis using False Cons.IH [OF srt] by (simp add: sweep_Cons_push del: sweep.simps)
  qed
qed

lemma blocks_merge_step:
  assumes "fromBlock cur \<le> fromBlock nxt" "fromBlock nxt \<le> toBlock cur + 1"
  shows "blocks (cur\<lparr>toBlock := max (toBlock cur) (toBlock nxt)\<rparr>) = blocks cur \<union> blocks nxt"
  using assms by (auto simp: blocks_def)

lemma blocks_of_Cons: "blocks_of (r # rs) = blocks r \<union> blocks_of rs"
  by (simp add: blocks_of_def)

lemma sweep_blocks:
  assumes "sorted (map fromBlock (cur # rest))"
  shows "blocks_of (sweep [] cur rest) = blocks_of (cur # rest)"
  using assms
proof (induction rest arbitrary: cur)
  case Nil
  then show ?case by simp
next
  case (Cons nxt rest)
  show ?case
  proof (cases "fromBlock nxt \<le> toBlock cur + 1")
    case True
    let ?c = "cur\<lparr>toBlock := max (toBlock cur) (toBlock nxt)\<rparr>"
    have "sorted (map fromBlock (?c # rest))" using Cons.prems by simp
    then have "blocks_of (sweep [] ?c rest) = blocks_of (?c # rest)" by (rule Cons.IH)
    moreover have "blocks ?c = blocks cur \<union> blocks nxt"
      using blocks_merge_step [OF _ True] Cons.prems by simp
    ultimately show ?thesis using True
      by (simp only: sweep_Cons_merge blocks_of_Cons Un_assoc)
  next
    case False
    have srt: "sorted (map fromBlock (nxt # rest))" using Cons.prems by simp
    show ?thesis using False Cons.IH [OF srt] by (simp add: sweep_Cons_push blocks_of_Cons del: sweep.simps)
  qed
qed

lemma sweep_valid:
  assumes "valid cur" "\<forall>r \<in> set rest. valid r"
  shows "\<forall>r \<in> set (sweep [] cur rest). valid r"
  using assms
proof (induction rest arbitrary: cur)
  case Nil
  then show ?case by simp
next
  case (Cons nxt rest)
  show ?case
  proof (cases "fromBlock nxt \<le> toBlock cur + 1")
    case True
    have v: "valid (cur\<lparr>toBlock := max (toBlock cur) (toBlock nxt)\<rparr>)"
      using Cons.prems(1) by (simp add: valid_def)
    have rest: "\<forall>r \<in> set rest. valid r" using Cons.prems(2) by simp
    have "\<forall>r \<in> set (sweep [] (cur\<lparr>toBlock := max (toBlock cur) (toBlock nxt)\<rparr>) rest). valid r"
      by (rule Cons.IH [OF v rest])
    then show ?thesis using True by (simp only: sweep_Cons_merge)
  next
    case False
    have v: "valid nxt" and rest: "\<forall>r \<in> set rest. valid r" using Cons.prems(2) by simp_all
    have "\<forall>r \<in> set (sweep [] nxt rest). valid r"
      by (rule Cons.IH [OF v rest])
    then show ?thesis using False Cons.prems(1) by (simp add: sweep_Cons_push del: sweep.simps)
  qed
qed

lemma sweep_fixed:
  "sorted_wrt apart (cur # rest) \<Longrightarrow> sweep [] cur rest = cur # rest"
proof (induction rest arbitrary: cur)
  case Nil
  then show ?case by simp
next
  case (Cons nxt rest)
  have "\<not> fromBlock nxt \<le> toBlock cur + 1" using Cons.prems by (simp add: apart_def)
  moreover have "sweep [] nxt rest = nxt # rest" using Cons.IH Cons.prems by simp
  ultimately show ?case by (simp add: sweep_Cons_push del: sweep.simps)
qed

lemma sorted_hd_tl: "xs \<noteq> [] \<Longrightarrow> hd xs # tl xs = xs"
  by simp

lemma mergeRanges_long:
  assumes "\<not> length ranges \<le> 1"
  shows "\<exists>cur rest. sort_key fromBlock ranges = cur # rest
           \<and> mergeRanges ranges = sweep [] cur rest"
proof -
  have "sort_key fromBlock ranges \<noteq> []" using assms by (cases ranges) auto
  then obtain cur rest where "sort_key fromBlock ranges = cur # rest"
    by (cases "sort_key fromBlock ranges") auto
  then show ?thesis using assms by (simp add: mergeRanges_def)
qed

lemma mergeRanges_sorted: "sorted (map fromBlock (mergeRanges ranges))"
proof (cases "length ranges \<le> 1")
  case True
  then show ?thesis by (cases ranges) (auto simp: mergeRanges_def)
next
  case False
  then obtain cur rest where s: "sort_key fromBlock ranges = cur # rest"
      "mergeRanges ranges = sweep [] cur rest"
    using mergeRanges_long by blast
  have "sorted (map fromBlock (sort_key fromBlock ranges))" by (rule sorted_sort_key)
  then show ?thesis using s sweep_sorted by simp
qed

lemma mergeRanges_apart: "sorted_wrt apart (mergeRanges ranges)"
proof (cases "length ranges \<le> 1")
  case True
  then show ?thesis by (cases ranges) (auto simp: mergeRanges_def)
next
  case False
  then obtain cur rest where s: "sort_key fromBlock ranges = cur # rest"
      "mergeRanges ranges = sweep [] cur rest"
    using mergeRanges_long by blast
  have "sorted (map fromBlock (sort_key fromBlock ranges))" by (rule sorted_sort_key)
  then show ?thesis using s sweep_apart by simp
qed

lemma blocks_mergeRanges: "blocks_of (mergeRanges ranges) = blocks_of ranges"
proof (cases "length ranges \<le> 1")
  case True
  then show ?thesis by (simp add: mergeRanges_def)
next
  case False
  then obtain cur rest where s: "sort_key fromBlock ranges = cur # rest"
      "mergeRanges ranges = sweep [] cur rest"
    using mergeRanges_long by blast
  have "sorted (map fromBlock (sort_key fromBlock ranges))" by (rule sorted_sort_key)
  then have "blocks_of (sweep [] cur rest) = blocks_of (cur # rest)"
    using s sweep_blocks by simp
  also have "\<dots> = blocks_of ranges"
    using s(1) [symmetric] by (simp add: blocks_of_def)
  finally show ?thesis using s by simp
qed

lemma mergeRanges_valid:
  assumes "\<forall>r \<in> set ranges. valid r"
  shows "\<forall>r \<in> set (mergeRanges ranges). valid r"
proof (cases "length ranges \<le> 1")
  case True
  then show ?thesis using assms by (simp add: mergeRanges_def)
next
  case False
  then obtain cur rest where s: "sort_key fromBlock ranges = cur # rest"
      "mergeRanges ranges = sweep [] cur rest"
    using mergeRanges_long by blast
  have "set (cur # rest) = set ranges" using s(1) [symmetric] by simp
  then have "valid cur" "\<forall>r \<in> set rest. valid r" using assms by auto
  then have "\<forall>r \<in> set (sweep [] cur rest). valid r" by (rule sweep_valid)
  then show ?thesis by (simp only: s(2))
qed

text \<open>
  Claim C9. \<open>mergeRanges\<close> is idempotent: merging a merged list returns it unchanged.
  This holds for every list of ranges, valid or not.
\<close>

theorem mergeRanges_idempotent: "mergeRanges (mergeRanges x) = mergeRanges x"
proof (cases "length (mergeRanges x) \<le> 1")
  case True
  then show ?thesis by (simp add: mergeRanges_def [of "mergeRanges x"])
next
  case False
  then obtain cur rest where s: "sort_key fromBlock (mergeRanges x) = cur # rest"
      "mergeRanges (mergeRanges x) = sweep [] cur rest"
    using mergeRanges_long by blast
  have "sort_key fromBlock (mergeRanges x) = mergeRanges x"
    using mergeRanges_sorted by (rule sort_key_id_if_sorted)
  then have eq: "mergeRanges x = cur # rest" using s(1) by simp
  then have "sorted_wrt apart (cur # rest)" using mergeRanges_apart [of x] by simp
  then have "sweep [] cur rest = cur # rest" by (rule sweep_fixed)
  then show ?thesis using s(2) eq by simp
qed

lemma apart_disjoint: "apart a b \<Longrightarrow> disjoint a b"
  by (auto simp: apart_def disjoint_def blocks_def)

lemma apart_either:
  assumes "sorted_wrt apart out" "a \<in> set out" "b \<in> set out" "a \<noteq> b"
  shows "apart a b \<or> apart b a"
proof -
  obtain i j where ij: "i < length out" "out ! i = a" "j < length out" "out ! j = b"
    using assms(2,3) by (auto simp: in_set_conv_nth)
  have "i \<noteq> j" using ij assms(4) by auto
  then consider "i < j" | "j < i" by linarith
  then show ?thesis
  proof cases
    case 1
    have "apart (out ! i) (out ! j)" by (rule sorted_wrt_nth_less [OF assms(1) 1 ij(3)])
    then show ?thesis using ij by simp
  next
    case 2
    have "apart (out ! j) (out ! i)" by (rule sorted_wrt_nth_less [OF assms(1) 2 ij(1)])
    then show ?thesis using ij by simp
  qed
qed

lemma interval_in_one:
  assumes "sorted_wrt apart out" "l \<le> u" "{l..u} \<subseteq> blocks_of out"
  shows "\<exists>m \<in> set out. {l..u} \<subseteq> blocks m"
  using assms(2,3)
proof (induction u rule: int_ge_induct)
  case base
  then have "l \<in> blocks_of out" by simp
  then show ?case by (auto simp: blocks_of_def)
next
  case (step i)
  have "{l..i} \<subseteq> blocks_of out" using step.prems by auto
  then obtain m where m: "m \<in> set out" "{l..i} \<subseteq> blocks m" using step.IH by blast
  have "i + 1 \<in> blocks_of out" using step.prems step.hyps by auto
  then obtain m' where m': "m' \<in> set out" "i + 1 \<in> blocks m'" by (auto simp: blocks_of_def)
  have li: "l \<in> blocks m" "i \<in> blocks m" using m(2) step.hyps by auto
  have "m' = m"
  proof (rule ccontr)
    assume "m' \<noteq> m"
    then have "apart m' m \<or> apart m m'" using apart_either [OF assms(1) m'(1) m(1)] by simp
    then show False using li m'(2) by (auto simp: apart_def blocks_def)
  qed
  then have "{l..i + 1} \<subseteq> blocks m" using li m'(2) by (auto simp: blocks_def)
  then show ?case using m(1) by blast
qed

lemma touching_union:
  assumes "valid a" "valid b" "touching a b"
  shows "blocks a \<union> blocks b = {min (fromBlock a) (fromBlock b) .. max (toBlock a) (toBlock b)}"
  using assms by (auto simp: valid_def touching_def blocks_def)

lemma mergeRanges_coalesce:
  assumes "\<forall>r \<in> set ranges. valid r" "a \<in> set ranges" "b \<in> set ranges" "touching a b"
  shows "\<exists>m \<in> set (mergeRanges ranges). blocks a \<union> blocks b \<subseteq> blocks m"
proof -
  let ?l = "min (fromBlock a) (fromBlock b)" and ?u = "max (toBlock a) (toBlock b)"
  have va: "valid a" and vb: "valid b" using assms by auto
  have u: "blocks a \<union> blocks b = {?l..?u}" by (rule touching_union [OF va vb assms(4)])
  have "blocks a \<union> blocks b \<subseteq> blocks_of ranges" using assms(2,3) by (auto simp: blocks_of_def)
  then have sub: "{?l..?u} \<subseteq> blocks_of (mergeRanges ranges)"
    by (simp only: u blocks_mergeRanges)
  have "?l \<le> ?u" using va vb by (auto simp: valid_def)
  then have "\<exists>m \<in> set (mergeRanges ranges). {?l..?u} \<subseteq> blocks m"
    using sub by (rule interval_in_one [OF mergeRanges_apart])
  then show ?thesis by (simp only: u)
qed

lemma mergeRanges_short: "length ranges \<le> 1 \<Longrightarrow> mergeRanges ranges = ranges"
  by (simp add: mergeRanges_def)

text \<open>
  Claim C3. For a list of valid ranges, the result of \<open>mergeRanges\<close> is sorted ascending
  by \<open>fromBlock\<close>; its ranges are valid, and any two of them at positions \<open>i < j\<close> are
  disjoint and not adjacent (\<open>next.fromBlock \<le> current.toBlock + 1\<close> fails); it covers
  the same blocks as the input; two input ranges that overlap or are adjacent lie in
  one range of the result; and a list of length 0 or 1 is returned unchanged.
\<close>

theorem mergeRanges_minimal:
  assumes "\<forall>r \<in> set ranges. valid r"
  shows "sorted (map fromBlock (mergeRanges ranges))
       \<and> (\<forall>r \<in> set (mergeRanges ranges). valid r)
       \<and> (\<forall>i j. i < j \<and> j < length (mergeRanges ranges) \<longrightarrow>
             disjoint (mergeRanges ranges ! i) (mergeRanges ranges ! j)
           \<and> \<not> fromBlock (mergeRanges ranges ! j) \<le> toBlock (mergeRanges ranges ! i) + 1)
       \<and> blocks_of (mergeRanges ranges) = blocks_of ranges
       \<and> (\<forall>a \<in> set ranges. \<forall>b \<in> set ranges. touching a b \<longrightarrow>
             (\<exists>m \<in> set (mergeRanges ranges). blocks a \<union> blocks b \<subseteq> blocks m))
       \<and> (length ranges \<le> 1 \<longrightarrow> mergeRanges ranges = ranges)"
proof -
  let ?out = "mergeRanges ranges"
  have gaps: "disjoint (?out ! i) (?out ! j) \<and> \<not> fromBlock (?out ! j) \<le> toBlock (?out ! i) + 1"
    if "i < j" "j < length ?out" for i j
  proof -
    have "apart (?out ! i) (?out ! j)"
      by (rule sorted_wrt_nth_less [OF mergeRanges_apart that])
    then show ?thesis using apart_disjoint by (auto simp: apart_def)
  qed
  show ?thesis
    using mergeRanges_sorted [of ranges] mergeRanges_valid [OF assms] gaps
      blocks_mergeRanges [of ranges] mergeRanges_coalesce [OF assms] mergeRanges_short [of ranges]
    by blast
qed

theorem mergeRanges_minimal_witness:
  "mergeRanges [\<lparr>fromBlock = 7, toBlock = 10\<rparr>, \<lparr>fromBlock = 1, toBlock = 5\<rparr>,
                \<lparr>fromBlock = 6, toBlock = 6\<rparr>, \<lparr>fromBlock = 20, toBlock = 21\<rparr>]
     = [\<lparr>fromBlock = 1, toBlock = 10\<rparr>, \<lparr>fromBlock = 20, toBlock = 21\<rparr>]
   \<and> blocks_of [\<lparr>fromBlock = 1, toBlock = 10\<rparr>, \<lparr>fromBlock = 20, toBlock = 21\<rparr>]
     = blocks_of [\<lparr>fromBlock = 7, toBlock = 10\<rparr>, \<lparr>fromBlock = 1, toBlock = 5\<rparr>,
                \<lparr>fromBlock = 6, toBlock = 6\<rparr>, \<lparr>fromBlock = 20, toBlock = 21\<rparr>]"
proof -
  let ?rs = "[\<lparr>fromBlock = 7, toBlock = 10\<rparr>, \<lparr>fromBlock = 1, toBlock = 5\<rparr>,
              \<lparr>fromBlock = 6, toBlock = 6\<rparr>, \<lparr>fromBlock = 20, toBlock = 21\<rparr>]"
  have v: "\<forall>r \<in> set ?rs. valid r" by (simp add: valid_def)
  have m: "mergeRanges ?rs = [\<lparr>fromBlock = 1, toBlock = 10\<rparr>, \<lparr>fromBlock = 20, toBlock = 21\<rparr>]"
    by (simp add: mergeRanges_def)
  show ?thesis using mergeRanges_minimal [OF v] unfolding m by blast
qed

section \<open>The page-size check\<close>

lemma io_bind_quiet:
  assumes "\<And>w. fst (m w) \<noteq> Inl InvalidArgument"
    and "\<And>a w. fst (f a w) \<noteq> Inl InvalidArgument"
  shows "fst (io_bind m f w) \<noteq> Inl InvalidArgument"
proof (cases "m w")
  case (Pair r w')
  show ?thesis
  proof (cases r)
    case (Inl e)
    then show ?thesis using Pair assms(1) [of w] by (simp add: io_bind_def)
  next
    case (Inr a)
    then show ?thesis using Pair assms(2) [of a w'] by (simp add: io_bind_def)
  qed
qed

lemma stmt_run_quiet: "fst (stmt_run upd w) \<noteq> Inl InvalidArgument"
  by (simp add: stmt_run_def split: list.split)

lemma stmt_all_quiet: "fst (stmt_all q w) \<noteq> Inl InvalidArgument"
  by (simp add: stmt_all_def split: list.split)

lemma io_return_quiet: "fst (io_return a w) \<noteq> Inl InvalidArgument"
  by (simp add: io_return_def)

lemma transaction_quiet:
  assumes "\<And>w. fst (body w) \<noteq> Inl InvalidArgument"
  shows "fst (transaction body w) \<noteq> Inl InvalidArgument"
  using assms [of w] by (cases "body w") (auto simp: transaction_def split: sum.split)

lemma insertLogs_quiet: "fst (insertLogs ls fid w) \<noteq> Inl InvalidArgument"
proof (induction ls arbitrary: w)
  case Nil
  then show ?case by (simp add: io_return_quiet)
next
  case (Cons l ls)
  show ?case unfolding insertLogs.simps
    by (rule io_bind_quiet) (rule stmt_run_quiet, rule Cons.IH)
qed

lemma insertRange_quiet: "fst (insertRange fid a b w) \<noteq> Inl InvalidArgument"
  by (simp add: insertRange_def stmt_run_quiet)

lemma insertRanges_quiet: "fst (insertRanges fid rs w) \<noteq> Inl InvalidArgument"
proof (induction rs arbitrary: w)
  case Nil
  then show ?case by (simp add: io_return_quiet)
next
  case (Cons r rs)
  show ?case unfolding insertRanges.simps
    by (rule io_bind_quiet) (rule insertRange_quiet, rule Cons.IH)
qed

lemma selectRanges_quiet: "fst (selectRanges fid w) \<noteq> Inl InvalidArgument"
  by (simp add: selectRanges_def stmt_all_quiet)

lemma replaceRanges_quiet: "fst (replaceRanges fid rs w) \<noteq> Inl InvalidArgument"
  unfolding replaceRanges_def
  by (rule io_bind_quiet) (rule stmt_run_quiet, rule insertRanges_quiet)

lemma getMissingRanges_quiet: "fst (getMissingRanges fid want w) \<noteq> Inl InvalidArgument"
  unfolding getMissingRanges_def
  by (rule io_bind_quiet) (rule selectRanges_quiet, rule io_return_quiet)

lemma tidyUpRanges_quiet: "fst (tidyUpRanges fid w) \<noteq> Inl InvalidArgument"
  unfolding tidyUpRanges_def
proof (rule transaction_quiet, rule io_bind_quiet)
  show "fst (selectRanges fid w) \<noteq> Inl InvalidArgument" for w by (rule selectRanges_quiet)
  show "fst ((if length a = 0 then io_return () else replaceRanges fid (mergeRanges a)) w)
          \<noteq> Inl InvalidArgument" for a w
    by (simp add: io_return_quiet replaceRanges_quiet)
qed

lemma tagToNumber_quiet: "tagToNumber p tag \<noteq> Inl InvalidArgument"
  by (simp add: tagToNumber_def split: BlockTag.split option.split)

lemma toStrictFilter_quiet: "toStrictFilter p f d \<noteq> Inl InvalidArgument"
  using tagToNumber_quiet
  by (auto simp: toStrictFilter_def split: sum.split)

lemma getFinalizedBlockNumber_quiet: "getFinalizedBlockNumber p \<noteq> Inl InvalidArgument"
  by (simp add: getFinalizedBlockNumber_def split: option.split)

lemma io_lift_quiet: "r \<noteq> Inl InvalidArgument \<Longrightarrow> fst (io_lift r w) \<noteq> Inl InvalidArgument"
  by (simp add: io_lift_def)

lemma userBatch_quiet: "fst (userBatch cb a b c d w) \<noteq> Inl InvalidArgument"
  by (simp add: userBatch_def Let_def)

lemma progressBatch_quiet: "fst (progressBatch cb ms i n a b c d w) \<noteq> Inl InvalidArgument"
  by (simp add: progressBatch_def Let_def split: option.split)

lemma callOptional_quiet:
  assumes "\<And>h a b c d w. batchCallback = Some h \<Longrightarrow> fst (h a b c d w) \<noteq> Inl InvalidArgument"
  shows "fst (callOptional batchCallback a b c d w) \<noteq> Inl InvalidArgument"
  using assms by (cases batchCallback) (simp_all add: callOptional_def io_return_quiet)

lemma cachePage_quiet:
  assumes "\<And>h a b c d w. batchCallback = Some h \<Longrightarrow> fst (h a b c d w) \<noteq> Inl InvalidArgument"
  shows "fst (cachePage fid batchCallback a b c d w) \<noteq> Inl InvalidArgument"
  unfolding cachePage_def
proof (rule io_bind_quiet)
  show "fst (transaction (io_bind (insertLogs b fid) (\<lambda>_. insertRange fid c d)) w)
          \<noteq> Inl InvalidArgument" for w
    by (rule transaction_quiet, rule io_bind_quiet) (rule insertLogs_quiet, rule insertRange_quiet)
  show "fst (callOptional batchCallback a b c d w) \<noteq> Inl InvalidArgument" for w
    by (rule callOptional_quiet) (rule assms)
qed

lemma fetchLoop_stop:
  "\<not> (from \<le> to \<and> 1 \<le> pageSize) \<Longrightarrow>
   fetchLoop p f pageSize batchCallback to from allLogs w = (Inr allLogs, w)"
  by (subst fetchLoop.simps, rule if_not_P)

lemma fetchLoop_rpc_fails:
  assumes "from \<le> to" "1 \<le> pageSize"
    and "provider_getLogs p (withRange f from (min (from + pageSize - 1) to)) = None"
  shows "fetchLoop p f pageSize batchCallback to from allLogs w =
     (Inl UpstreamFetchFailure,
      w\<lparr>trace := trace w @ [RpcGetLogs (withRange f from (min (from + pageSize - 1) to))]\<rparr>)"
  using assms by (subst fetchLoop.simps) (simp add: Let_def)

lemma fetchLoop_handler_fails:
  assumes "from \<le> to" "1 \<le> pageSize"
    and "provider_getLogs p (withRange f from (min (from + pageSize - 1) to)) = Some batch"
    and "callOptional batchCallback (allLogs @ batch) batch from (min (from + pageSize - 1) to)
           (w\<lparr>trace := trace w @ [RpcGetLogs (withRange f from (min (from + pageSize - 1) to))]\<rparr>)
         = (Inl e, w2)"
  shows "fetchLoop p f pageSize batchCallback to from allLogs w = (Inl e, w2)"
  using assms by (subst fetchLoop.simps) (simp add: Let_def)

lemma fetchLoop_next:
  assumes "from \<le> to" "1 \<le> pageSize"
    and "provider_getLogs p (withRange f from (min (from + pageSize - 1) to)) = Some batch"
    and "callOptional batchCallback (allLogs @ batch) batch from (min (from + pageSize - 1) to)
           (w\<lparr>trace := trace w @ [RpcGetLogs (withRange f from (min (from + pageSize - 1) to))]\<rparr>)
         = (Inr u, w2)"
  shows "fetchLoop p f pageSize batchCallback to from allLogs w =
         fetchLoop p f pageSize batchCallback to (min (from + pageSize - 1) to + 1)
           (allLogs @ batch) w2"
  using assms by (subst fetchLoop.simps) (simp add: Let_def)

lemma fetchLoop_quiet:
  assumes "\<And>h a b c d w. batchCallback = Some h \<Longrightarrow> fst (h a b c d w) \<noteq> Inl InvalidArgument"
  shows "fst (fetchLoop p f pageSize batchCallback to from allLogs w) \<noteq> Inl InvalidArgument"
  using assms
proof (induction p f pageSize batchCallback to "from" allLogs w rule: fetchLoop.induct)
  case (1 p f pageSize batchCallback to "from" allLogs w)
  let ?to = "min (from + pageSize - 1) to"
  let ?w1 = "w\<lparr>trace := trace w @ [RpcGetLogs (withRange f from ?to)]\<rparr>"
  show ?case
  proof (cases "from \<le> to \<and> 1 \<le> pageSize")
    case False
    then show ?thesis by (simp add: fetchLoop_stop)
  next
    case True
    then have c: "from \<le> to" "1 \<le> pageSize" by simp_all
    show ?thesis
    proof (cases "provider_getLogs p (withRange f from ?to)")
      case None
      show ?thesis by (simp add: fetchLoop_rpc_fails [OF c None])
    next
      case (Some batch)
      obtain r w2 where cb: "callOptional batchCallback (allLogs @ batch) batch from ?to ?w1 = (r, w2)"
        by (cases "callOptional batchCallback (allLogs @ batch) batch from ?to ?w1")
      have q: "r \<noteq> Inl InvalidArgument"
        using callOptional_quiet [of batchCallback "allLogs @ batch" batch "from" ?to ?w1] "1.prems" cb
        by simp
      show ?thesis
      proof (cases r)
        case (Inl e)
        then show ?thesis using q fetchLoop_handler_fails [OF c Some cb [unfolded Inl]] by simp
      next
        case (Inr u)
        have "fst (fetchLoop p f pageSize batchCallback to (?to + 1) (allLogs @ batch) w2)
                \<noteq> Inl InvalidArgument"
          using "1.IH" [OF True refl refl Some cb [symmetric] Inr] "1.prems" by blast
        then show ?thesis using fetchLoop_next [OF c Some cb [unfolded Inr]] by simp
      qed
    qed
  qed
qed

lemma fetchLogs_quiet:
  assumes "1 \<le> pageSize"
    and "\<And>h a b c d w. batchCallback = Some h \<Longrightarrow> fst (h a b c d w) \<noteq> Inl InvalidArgument"
  shows "fst (fetchLogs p f pageSize batchCallback w) \<noteq> Inl InvalidArgument"
proof -
  have "fst (io_bind (io_lift (toStrictFilter p f (Tag ''latest''))) (\<lambda>strictFilter.
             fetchLoop p f pageSize batchCallback
               (toBlock strictFilter) (fromBlock strictFilter) []) w) \<noteq> Inl InvalidArgument"
    by (rule io_bind_quiet) (rule io_lift_quiet, rule toStrictFilter_quiet, rule fetchLoop_quiet, rule assms(2))
  then show ?thesis using assms(1) by (simp add: fetchLogs_def)
qed

lemma fetchRangeToCache_quiet:
  assumes "1 \<le> pageSize"
    and "\<And>h a b c d w. batchCallback = Some h \<Longrightarrow> fst (h a b c d w) \<noteq> Inl InvalidArgument"
  shows "fst (fetchRangeToCache p f pageSize batchCallback w) \<noteq> Inl InvalidArgument"
  unfolding fetchRangeToCache_def
proof (rule io_bind_quiet)
  show "fst (fetchLogs p f pageSize (Some (cachePage (getFilterId p f) batchCallback)) w)
          \<noteq> Inl InvalidArgument" for w
  proof (rule fetchLogs_quiet [OF assms(1)])
    fix h a b c d w
    assume "Some (cachePage (getFilterId p f) batchCallback) = Some h"
    then have "h = cachePage (getFilterId p f) batchCallback" by simp
    then show "fst (h a b c d w) \<noteq> Inl InvalidArgument"
      using cachePage_quiet [of batchCallback "getFilterId p f" a b c d w] assms(2) by simp
  qed
  show "fst (io_return () w) \<noteq> Inl InvalidArgument" for w by (rule io_return_quiet)
qed

lemma fetchMissing_quiet:
  assumes "1 \<le> pageSize"
  shows "fst (fetchMissing p f pageSize cb missing n i rest w) \<noteq> Inl InvalidArgument"
proof (induction rest arbitrary: i w)
  case Nil
  then show ?case by (simp add: io_return_quiet)
next
  case (Cons r rest)
  show ?case unfolding fetchMissing.simps
  proof (rule io_bind_quiet)
    show "fst (fetchRangeToCache p (withRange f (fromBlock r) (toBlock r)) pageSize
                 (Some (progressBatch cb missing i n)) w) \<noteq> Inl InvalidArgument" for w
    proof (rule fetchRangeToCache_quiet [OF assms])
      fix h a b c d w
      assume "Some (progressBatch cb missing i n) = Some h"
      then have "h = progressBatch cb missing i n" by simp
      then show "fst (h a b c d w) \<noteq> Inl InvalidArgument" by (simp add: progressBatch_quiet)
    qed
    show "fst (fetchMissing p f pageSize cb missing n (Suc i) rest w) \<noteq> Inl InvalidArgument" for w
      by (rule Cons.IH)
  qed
qed

lemma resetTotalScannedBlocks_quiet: "fst (resetTotalScannedBlocks w) \<noteq> Inl InvalidArgument"
  by (simp add: resetTotalScannedBlocks_def)

lemma io_throw_quiet: "e \<noteq> InvalidArgument \<Longrightarrow> fst (io_throw e w) \<noteq> Inl InvalidArgument"
  by (simp add: io_throw_def)

lemma fetchLogsToCache_quiet:
  assumes "1 \<le> pageSize"
  shows "fst (fetchLogsToCache p f pageSize cb w) \<noteq> Inl InvalidArgument"
proof -
  have tail: "fst ((if toBlock sf > L then io_throw FinalityViolation
        else
          io_bind (tidyUpRanges (getFilterId p f)) (\<lambda>_.
          io_bind (getMissingRanges (getFilterId p f) sf) (\<lambda>missingRanges.
          io_bind resetTotalScannedBlocks (\<lambda>_.
          io_bind
            (fetchMissing p f pageSize cb missingRanges
               (foldl (\<lambda>acc r. acc + toBlock r - fromBlock r + 1) 0 missingRanges)
               0 missingRanges) (\<lambda>_.
          tidyUpRanges (getFilterId p f)))))) w) \<noteq> Inl InvalidArgument" for sf L w
  proof (cases "toBlock sf > L")
    case True
    then show ?thesis by (simp add: io_throw_quiet)
  next
    case False
    have "fst (io_bind (tidyUpRanges (getFilterId p f)) (\<lambda>_.
          io_bind (getMissingRanges (getFilterId p f) sf) (\<lambda>missingRanges.
          io_bind resetTotalScannedBlocks (\<lambda>_.
          io_bind
            (fetchMissing p f pageSize cb missingRanges
               (foldl (\<lambda>acc r. acc + toBlock r - fromBlock r + 1) 0 missingRanges)
               0 missingRanges) (\<lambda>_.
          tidyUpRanges (getFilterId p f))))) w) \<noteq> Inl InvalidArgument"
      by (intro io_bind_quiet tidyUpRanges_quiet getMissingRanges_quiet
            resetTotalScannedBlocks_quiet fetchMissing_quiet assms)
    then show ?thesis using False by simp
  qed
  have "fst (io_bind (io_lift (toStrictFilter p f (Tag ''finalized''))) (\<lambda>strictFilter.
        io_bind (io_lift (getFinalizedBlockNumber p)) (\<lambda>lastFinalizedBlock.
        if toBlock strictFilter > lastFinalizedBlock then io_throw FinalityViolation
        else
          io_bind (tidyUpRanges (getFilterId p f)) (\<lambda>_.
          io_bind (getMissingRanges (getFilterId p f) strictFilter) (\<lambda>missingRanges.
          io_bind resetTotalScannedBlocks (\<lambda>_.
          io_bind
            (fetchMissing p f pageSize cb missingRanges
               (foldl (\<lambda>acc r. acc + toBlock r - fromBlock r + 1) 0 missingRanges)
               0 missingRanges) (\<lambda>_.
          tidyUpRanges (getFilterId p f))))))) w) \<noteq> Inl InvalidArgument"
    by (intro io_bind_quiet io_lift_quiet toStrictFilter_quiet getFinalizedBlockNumber_quiet tail)
  then show ?thesis using assms by (simp add: fetchLogsToCache_def)
qed

text \<open>
  Claim C10. With \<open>pageSize < 1\<close>, \<open>fetchLogs\<close> and \<open>fetchLogsToCache\<close> fail with
  \<open>InvalidArgument\<close> and leave the state as it was: no upstream fetch, nothing written.
  With \<open>pageSize \<ge> 1\<close> neither of them fails with \<open>InvalidArgument\<close>.
\<close>

theorem pageSize_contract:
  "(pageSize < 1 \<longrightarrow>
      fetchLogs p f pageSize (map_option userBatch batchCallback) w = (Inl InvalidArgument, w)
    \<and> fetchLogsToCache p f pageSize cacheCallback w = (Inl InvalidArgument, w))
 \<and> (1 \<le> pageSize \<longrightarrow>
      fst (fetchLogs p f pageSize (map_option userBatch batchCallback) w) \<noteq> Inl InvalidArgument
    \<and> fst (fetchLogsToCache p f pageSize cacheCallback w) \<noteq> Inl InvalidArgument)"
proof -
  have user: "fst (h a b c d w) \<noteq> Inl InvalidArgument"
    if u: "map_option userBatch batchCallback = Some h" for h a b c d w
  proof -
    obtain cb where "h = userBatch cb" using u by auto
    then show ?thesis by (simp add: userBatch_quiet)
  qed
  have "1 \<le> pageSize \<Longrightarrow>
      fst (fetchLogs p f pageSize (map_option userBatch batchCallback) w) \<noteq> Inl InvalidArgument"
    by (rule fetchLogs_quiet) (assumption, rule user)
  moreover have "1 \<le> pageSize \<Longrightarrow>
      fst (fetchLogsToCache p f pageSize cacheCallback w) \<noteq> Inl InvalidArgument"
    by (rule fetchLogsToCache_quiet)
  ultimately show ?thesis
    by (simp add: fetchLogs_def fetchLogsToCache_def io_throw_def)
qed

theorem pageSize_contract_witness:
  "fetchLogs (chainProvider [logAt 1] 2 4) anyFilter 0 None emptyWorld
     = (Inl InvalidArgument, emptyWorld)
 \<and> fetchLogsToCache (chainProvider [logAt 1] 2 4) anyFilter 0 None emptyWorld
     = (Inl InvalidArgument, emptyWorld)
 \<and> fst (fetchLogs (chainProvider [logAt 1] 2 4) anyFilter 1 None emptyWorld)
     \<noteq> Inl InvalidArgument
 \<and> fst (fetchLogsToCache (chainProvider [logAt 1] 2 4) anyFilter 1 None emptyWorld)
     \<noteq> Inl InvalidArgument"
  using pageSize_contract [of 0 "chainProvider [logAt 1] 2 4" anyFilter None emptyWorld None]
    pageSize_contract [of 1 "chainProvider [logAt 1] 2 4" anyFilter None emptyWorld None]
  by simp

text \<open>
  Claim C5. Once the page size has passed its check and the bounds are resolved, a
  resolved upper bound above the last finalized block makes \<open>fetchLogsToCache\<close> fail
  with \<open>FinalityViolation\<close>, and the state is as it was: no record, no range, no tidy.
\<close>

theorem fetchLogsToCache_finality:
  assumes "1 \<le> pageSize"
    and "toStrictFilter p f (Tag ''finalized'') = Inr strictFilter"
    and "getFinalizedBlockNumber p = Inr lastFinalizedBlock"
    and "toBlock strictFilter > lastFinalizedBlock"
  shows "fetchLogsToCache p f pageSize batchCallback w = (Inl FinalityViolation, w)"
  using assms by (simp add: fetchLogsToCache_def io_bind_def io_lift_def io_throw_def)

theorem fetchLogsToCache_finality_witness:
  "fetchLogsToCache (chainProvider [logAt 1] 2 4) (anyFilter\<lparr>toBlockTag := Some (Num 3)\<rparr>)
     10 None emptyWorld = (Inl FinalityViolation, emptyWorld)"
proof -
  have ps: "(1::int) \<le> 10" by simp
  have sf: "toStrictFilter (chainProvider [logAt 1] 2 4) (anyFilter\<lparr>toBlockTag := Some (Num 3)\<rparr>)
              (Tag ''finalized'') = Inr \<lparr>fromBlock = 0, toBlock = 3\<rparr>"
    by (simp add: toStrictFilter_def tagToNumber_def orDefault_def chainProvider_def anyFilter_def)
  have fin: "getFinalizedBlockNumber (chainProvider [logAt 1] 2 4) = Inr 2"
    by (simp add: getFinalizedBlockNumber_def chainProvider_def)
  show ?thesis by (rule fetchLogsToCache_finality [OF ps sf fin]) simp
qed

section \<open>fetchLogs walks the pages\<close>

lemma pages_stop: "\<not> (from \<le> to \<and> 1 \<le> pageSize) \<Longrightarrow> pages pageSize from to = []"
  by (subst pages.simps, rule if_not_P)

lemma pages_step:
  "from \<le> to \<Longrightarrow> 1 \<le> pageSize \<Longrightarrow>
   pages pageSize from to =
     (from, min (from + pageSize - 1) to) # pages pageSize (min (from + pageSize - 1) to + 1) to"
  by (subst pages.simps) simp

lemma pages_partition:
  "1 \<le> pageSize \<Longrightarrow> concat (map (\<lambda>pg. [fst pg..snd pg]) (pages pageSize from to)) = [from..to]"
proof (induction pageSize "from" to rule: pages.induct)
  case (1 pageSize "from" to)
  show ?case
  proof (cases "from \<le> to")
    case False
    then show ?thesis by (simp add: pages_stop)
  next
    case True
    let ?e = "min (from + pageSize - 1) to"
    have ih: "concat (map (\<lambda>pg. [fst pg..snd pg]) (pages pageSize (?e + 1) to)) = [?e + 1..to]"
      using "1.IH" True "1.prems" by simp
    have "from \<le> ?e" "?e \<le> to" using True "1.prems" by auto
    then have "[from..to] = [from..?e] @ [?e + 1..to]"
      using upto_split2 [of "from" ?e to] by simp
    then show ?thesis using ih True "1.prems" by (simp add: pages_step)
  qed
qed

lemma pages_sizes:
  assumes "pg \<in> set (pages pageSize from to)"
  shows "fst pg \<le> snd pg \<and> snd pg - fst pg + 1 \<le> pageSize"
  using assms
proof (induction pageSize "from" to rule: pages.induct)
  case (1 pageSize "from" to)
  show ?case
  proof (cases "from \<le> to \<and> 1 \<le> pageSize")
    case False
    then show ?thesis using "1.prems" by (simp add: pages_stop)
  next
    case True
    then have c: "from \<le> to" "1 \<le> pageSize" by simp_all
    from "1.prems" consider "pg = (from, min (from + pageSize - 1) to)"
      | "pg \<in> set (pages pageSize (min (from + pageSize - 1) to + 1) to)"
      by (auto simp: pages_step [OF c])
    then show ?thesis
    proof cases
      case 1
      then show ?thesis using c by auto
    next
      case 2
      then show ?thesis using "1.IH" [OF True] by simp
    qed
  qed
qed

lemma userBatch_returns:
  "cb a b c d \<Longrightarrow>
   userBatch cb a b c d w = (Inr (), w\<lparr>trace := trace w @ [FetchLogsBatch a b c d]\<rparr>)"
  by (simp add: userBatch_def)

lemma fetchLoop_walk:
  assumes "\<forall>pg \<in> set (pages pageSize from to).
             provider_getLogs p (withRange f (fst pg) (snd pg)) \<noteq> None"
    and "\<forall>cb. batchCallback = Some cb \<longrightarrow> (\<forall>a b c d. cb a b c d)"
  shows "fetchLoop p f pageSize (map_option userBatch batchCallback) to from soFar w =
     (Inr (soFar @ concat (map (pageLogs p f) (pages pageSize from to))),
      w\<lparr>trace := trace w @ batchEvents p f batchCallback soFar (pages pageSize from to)\<rparr>)"
  using assms(1)
proof (induction pageSize "from" to arbitrary: soFar w rule: pages.induct)
  case (1 pageSize "from" to)
  show ?case
  proof (cases "from \<le> to \<and> 1 \<le> pageSize")
    case False
    then show ?thesis by (simp add: pages_stop fetchLoop_stop)
  next
    case True
    then have c: "from \<le> to" "1 \<le> pageSize" by simp_all
    let ?e = "min (from + pageSize - 1) to"
    let ?w1 = "w\<lparr>trace := trace w @ [RpcGetLogs (withRange f from ?e)]\<rparr>"
    have pg: "pages pageSize from to = (from, ?e) # pages pageSize (?e + 1) to"
      by (rule pages_step [OF c])
    obtain batch where batch: "provider_getLogs p (withRange f from ?e) = Some batch"
      using "1.prems" pg by auto
    then have pl: "pageLogs p f (from, ?e) = batch" by (simp add: pageLogs_def)
    obtain w2 where cb: "callOptional (map_option userBatch batchCallback) (soFar @ batch) batch
          from ?e ?w1 = (Inr (), w2)"
      and w2: "w2 = ?w1\<lparr>trace := trace ?w1 @
          (case batchCallback of None \<Rightarrow> []
           | Some cb \<Rightarrow> [FetchLogsBatch (soFar @ batch) batch from ?e])\<rparr>"
    proof (cases batchCallback)
      case None
      then show ?thesis using that by (simp add: callOptional_def io_return_def)
    next
      case (Some cb)
      then have "cb (soFar @ batch) batch from ?e" using assms(2) by simp
      then show ?thesis using that Some by (simp add: callOptional_def userBatch_returns)
    qed
    have rest: "\<forall>pg \<in> set (pages pageSize (?e + 1) to).
        provider_getLogs p (withRange f (fst pg) (snd pg)) \<noteq> None"
      using "1.prems" pg by simp
    have "fetchLoop p f pageSize (map_option userBatch batchCallback) to from soFar w =
          fetchLoop p f pageSize (map_option userBatch batchCallback) to (?e + 1) (soFar @ batch) w2"
      by (rule fetchLoop_next [OF c batch cb])
    also have "\<dots> = (Inr ((soFar @ batch) @ concat (map (pageLogs p f) (pages pageSize (?e + 1) to))),
        w2\<lparr>trace := trace w2 @ batchEvents p f batchCallback (soFar @ batch) (pages pageSize (?e + 1) to)\<rparr>)"
      by (rule "1.IH" [OF True rest])
    also have "\<dots> = (Inr (soFar @ concat (map (pageLogs p f) (pages pageSize from to))),
        w\<lparr>trace := trace w @ batchEvents p f batchCallback soFar (pages pageSize from to)\<rparr>)"
      by (simp add: pg pl w2 split: option.split)
    finally show ?thesis .
  qed
qed

text \<open>
  Claim C7. With \<open>pageSize \<ge> 1\<close>, a range resolved by \<open>toStrictFilter\<close>, a provider that
  answers every page and a callback that returns, \<open>fetchLogs\<close> returns the records of
  the pages in page order, and its events are, page by page, the one request for the
  page followed by the one call of the callback with the records so far, the page's
  records and the page's bounds. The pages are consecutive and make up the range,
  each has between 1 and \<open>pageSize\<close> blocks and the first starts at \<open>fromBlock\<close>. When
  \<open>fromBlock > toBlock\<close> the result is empty and nothing is fetched.
\<close>

theorem fetchLogs_pages:
  assumes "1 \<le> pageSize"
    and "toStrictFilter p f (Tag ''latest'') = Inr r"
    and "\<forall>pg \<in> set (pages pageSize (fromBlock r) (toBlock r)).
           provider_getLogs p (withRange f (fst pg) (snd pg)) \<noteq> None"
    and "\<forall>cb. batchCallback = Some cb \<longrightarrow> (\<forall>a b c d. cb a b c d)"
  shows "fetchLogs p f pageSize (map_option userBatch batchCallback) w =
           (Inr (concat (map (pageLogs p f) (pages pageSize (fromBlock r) (toBlock r)))),
            w\<lparr>trace := trace w @
                 batchEvents p f batchCallback [] (pages pageSize (fromBlock r) (toBlock r))\<rparr>)
       \<and> concat (map (\<lambda>pg. [fst pg..snd pg]) (pages pageSize (fromBlock r) (toBlock r)))
           = [fromBlock r..toBlock r]
       \<and> (\<forall>pg \<in> set (pages pageSize (fromBlock r) (toBlock r)).
             fst pg \<le> snd pg \<and> snd pg - fst pg + 1 \<le> pageSize)
       \<and> (fromBlock r \<le> toBlock r \<longrightarrow>
             hd (pages pageSize (fromBlock r) (toBlock r))
               = (fromBlock r, min (fromBlock r + pageSize - 1) (toBlock r)))
       \<and> (toBlock r < fromBlock r \<longrightarrow>
             fetchLogs p f pageSize (map_option userBatch batchCallback) w = (Inr [], w))"
proof -
  let ?pgs = "pages pageSize (fromBlock r) (toBlock r)"
  have run: "fetchLogs p f pageSize (map_option userBatch batchCallback) w =
           (Inr (concat (map (pageLogs p f) ?pgs)),
            w\<lparr>trace := trace w @ batchEvents p f batchCallback [] ?pgs\<rparr>)"
    using assms(1,2) fetchLoop_walk [OF assms(3,4), of "[]" w]
    by (simp add: fetchLogs_def io_bind_def io_lift_def)
  have empty: "toBlock r < fromBlock r \<Longrightarrow> ?pgs = []" by (simp add: pages_stop)
  have first: "fromBlock r \<le> toBlock r \<Longrightarrow>
      hd ?pgs = (fromBlock r, min (fromBlock r + pageSize - 1) (toBlock r))"
    using assms(1) by (simp add: pages_step)
  show ?thesis
    using run empty first pages_partition [OF assms(1)] pages_sizes by auto
qed

theorem fetchLogs_pages_witness:
  "fetchLogs (chainProvider [logAt 1, logAt 2, logAt 3] 2 4)
     (anyFilter\<lparr>fromBlockTag := Some (Num 1), toBlockTag := Some (Num 3)\<rparr>) 2
     (map_option userBatch (Some (\<lambda>a b c d. True))) emptyWorld
   = (Inr [logAt 1, logAt 2, logAt 3],
      emptyWorld\<lparr>trace :=
        [RpcGetLogs (anyFilter\<lparr>fromBlockTag := Some (Num 1), toBlockTag := Some (Num 2)\<rparr>),
         FetchLogsBatch [logAt 1, logAt 2] [logAt 1, logAt 2] 1 2,
         RpcGetLogs (anyFilter\<lparr>fromBlockTag := Some (Num 3), toBlockTag := Some (Num 3)\<rparr>),
         FetchLogsBatch [logAt 1, logAt 2, logAt 3] [logAt 3] 3 3]\<rparr>)"
proof -
  let ?p = "chainProvider [logAt 1, logAt 2, logAt 3] 2 4"
  let ?f = "anyFilter\<lparr>fromBlockTag := Some (Num 1), toBlockTag := Some (Num 3)\<rparr>"
  have ps: "(1::int) \<le> 2" by simp
  have r: "toStrictFilter ?p ?f (Tag ''latest'') = Inr \<lparr>fromBlock = 1, toBlock = 3\<rparr>"
    by (simp add: toStrictFilter_def tagToNumber_def orDefault_def)
  have pg: "pages 2 1 3 = [(1, 2), (3, 3)]" by (simp add: pages.simps)
  have rpc: "\<forall>pg \<in> set (pages 2 (fromBlock \<lparr>fromBlock = 1, toBlock = 3\<rparr>)
                 (toBlock \<lparr>fromBlock = 1, toBlock = 3\<rparr>)).
               provider_getLogs ?p (withRange ?f (fst pg) (snd pg)) \<noteq> None"
    by (simp add: pg chainProvider_def withRange_def)
  have cb: "\<forall>cb. Some (\<lambda>a b c d. True) = Some cb \<longrightarrow>
              (\<forall>(a::Log list) (b::Log list) (c::int) (d::int). cb a b c d)"
    by simp
  show ?thesis
    using fetchLogs_pages [OF ps r rpc cb, of emptyWorld]
    by (simp add: pg pageLogs_def chainProvider_def withRange_def logAt_def anyFilter_def
          emptyWorld_def)
qed

section \<open>Pages are committed atomically\<close>

lemma stmt_run_cases:
  assumes "stmt_run upd w = (r, w')"
  shows "trace w' = trace w \<and> totalScannedBlocks w' = totalScannedBlocks w
       \<and> (case r of Inl e \<Rightarrow> db w' = db w | Inr u \<Rightarrow> db w' = upd (db w))
       \<and> (faults w = [] \<longrightarrow> r = Inr () \<and> faults w' = [])"
  using assms by (auto simp: stmt_run_def split: list.splits if_splits)

lemma insertLogs_cases:
  assumes "insertLogs batch fid w = (r, w')"
  shows "trace w' = trace w \<and> totalScannedBlocks w' = totalScannedBlocks w
       \<and> (r = Inr () \<longrightarrow> db w' = insertLogRows fid batch (db w))
       \<and> (faults w = [] \<longrightarrow> r = Inr () \<and> faults w' = [])"
  using assms
proof (induction batch arbitrary: w)
  case Nil
  then show ?case by (auto simp: io_return_def insertLogRows_def)
next
  case (Cons l ls)
  obtain r1 w1 where s: "stmt_run (insertLogRow (logRow fid l)) w = (r1, w1)"
    by (cases "stmt_run (insertLogRow (logRow fid l)) w")
  note s1 = stmt_run_cases [OF s]
  show ?case
  proof (cases r1)
    case (Inl e)
    then show ?thesis using Cons.prems s s1 by (auto simp: io_bind_def)
  next
    case (Inr u)
    then have rest: "insertLogs ls fid w1 = (r, w')"
      using Cons.prems s by (simp add: io_bind_def)
    show ?thesis using Cons.IH [OF rest] s1 Inr by (auto simp: insertLogRows_def)
  qed
qed

lemma page_transaction_cases:
  assumes "transaction (io_bind (insertLogs batch fid) (\<lambda>_. insertRange fid a b)) w = (r, w')"
  shows "trace w' = trace w \<and> totalScannedBlocks w' = totalScannedBlocks w
       \<and> (case r of Inl e \<Rightarrow> db w' = db w
           | Inr u \<Rightarrow> db w' = insertRangeRow fid a b (insertLogRows fid batch (db w)))
       \<and> (faults w = [] \<longrightarrow> r = Inr () \<and> faults w' = [])"
proof -
  obtain r1 w1 where i: "insertLogs batch fid w = (r1, w1)"
    by (cases "insertLogs batch fid w")
  note i1 = insertLogs_cases [OF i]
  show ?thesis
  proof (cases r1)
    case (Inl e)
    then show ?thesis using assms i i1 by (auto simp: transaction_def io_bind_def)
  next
    case (Inr u)
    obtain r2 w2 where s: "stmt_run (insertRangeRow fid a b) w1 = (r2, w2)"
      by (cases "stmt_run (insertRangeRow fid a b) w1")
    note s1 = stmt_run_cases [OF s]
    show ?thesis
    proof (cases r2)
      case (Inl e)
      then show ?thesis using assms i i1 s s1 Inr
        by (auto simp: transaction_def io_bind_def insertRange_def)
    next
      case Inr2: (Inr u2)
      then show ?thesis using assms i i1 s s1 Inr
        by (auto simp: transaction_def io_bind_def insertRange_def)
    qed
  qed
qed

lemma callOptional_db:
  assumes "\<forall>h. batchCallback = Some h \<longrightarrow> (\<forall>a b c d w. db (snd (h a b c d w)) = db w)"
  shows "db (snd (callOptional batchCallback a b c d w)) = db w"
  using assms by (cases batchCallback) (simp_all add: callOptional_def io_return_def)

lemma cachePage_cases:
  assumes "\<forall>h. batchCallback = Some h \<longrightarrow> (\<forall>a b c d w. db (snd (h a b c d w)) = db w)"
    and "cachePage fid batchCallback allLogs batch a b w = (r, w')"
  shows "(db w' = db w \<or> db w' = insertRangeRow fid a b (insertLogRows fid batch (db w)))
       \<and> (r = Inr () \<longrightarrow> db w' = insertRangeRow fid a b (insertLogRows fid batch (db w)))"
proof -
  obtain r1 w1 where t: "transaction (io_bind (insertLogs batch fid) (\<lambda>_. insertRange fid a b)) w
      = (r1, w1)"
    by (cases "transaction (io_bind (insertLogs batch fid) (\<lambda>_. insertRange fid a b)) w")
  note t1 = page_transaction_cases [OF t]
  show ?thesis
  proof (cases r1)
    case (Inl e)
    then show ?thesis using assms(2) t t1 by (auto simp: cachePage_def io_bind_def)
  next
    case (Inr u)
    then have "callOptional batchCallback allLogs batch a b w1 = (r, w')"
      using assms(2) t by (simp add: cachePage_def io_bind_def)
    then have "db w' = db w1"
      using callOptional_db [OF assms(1), of allLogs batch a b w1] by simp
    then show ?thesis using t1 Inr by simp
  qed
qed

lemma fetchLoop_commits:
  assumes "\<forall>h. batchCallback = Some h \<longrightarrow> (\<forall>a b c d w. db (snd (h a b c d w)) = db w)"
  shows "\<exists>k \<le> length (pages pageSize from to).
      db (snd (fetchLoop p f pageSize (Some (cachePage (getFilterId p f) batchCallback))
                 to from allLogs w))
        = foldl (commitPage p f) (db w) (take k (pages pageSize from to))
    \<and> (isl (fst (fetchLoop p f pageSize (Some (cachePage (getFilterId p f) batchCallback))
                 to from allLogs w)) \<or> k = length (pages pageSize from to))"
proof (induction pageSize "from" to arbitrary: allLogs w rule: pages.induct)
  case (1 pageSize "from" to)
  let ?h = "Some (cachePage (getFilterId p f) batchCallback)"
  show ?case
  proof (cases "from \<le> to \<and> 1 \<le> pageSize")
    case False
    then show ?thesis by (simp add: pages_stop fetchLoop_stop)
  next
    case True
    then have c: "from \<le> to" "1 \<le> pageSize" by simp_all
    let ?e = "min (from + pageSize - 1) to"
    let ?w1 = "w\<lparr>trace := trace w @ [RpcGetLogs (withRange f from ?e)]\<rparr>"
    have pg: "pages pageSize from to = (from, ?e) # pages pageSize (?e + 1) to"
      by (rule pages_step [OF c])
    show ?thesis
    proof (cases "provider_getLogs p (withRange f from ?e)")
      case None
      have "fetchLoop p f pageSize ?h to from allLogs w = (Inl UpstreamFetchFailure, ?w1)"
        by (rule fetchLoop_rpc_fails [OF c None])
      then show ?thesis by (intro exI [of _ 0]) simp
    next
      case (Some batch)
      then have pl: "pageLogs p f (from, ?e) = batch" by (simp add: pageLogs_def)
      obtain r w2 where cb: "callOptional ?h (allLogs @ batch) batch from ?e ?w1 = (r, w2)"
        by (cases "callOptional ?h (allLogs @ batch) batch from ?e ?w1")
      then have cp: "cachePage (getFilterId p f) batchCallback (allLogs @ batch) batch from ?e ?w1
          = (r, w2)"
        by (simp add: callOptional_def)
      note page = cachePage_cases [OF assms cp]
      show ?thesis
      proof (cases r)
        case (Inl e)
        have run: "fetchLoop p f pageSize ?h to from allLogs w = (Inl e, w2)"
          by (rule fetchLoop_handler_fails [OF c Some cb [unfolded Inl]])
        from page consider "db w2 = db w" | "db w2 = commitPage p f (db w) (from, ?e)"
          by (auto simp: commitPage_def pl)
        then show ?thesis
        proof cases
          case 1
          then show ?thesis using run by (intro exI [of _ 0]) simp
        next
          case 2
          then show ?thesis using run pg by (intro exI [of _ 1]) simp
        qed
      next
        case (Inr u)
        have run: "fetchLoop p f pageSize ?h to from allLogs w =
            fetchLoop p f pageSize ?h to (?e + 1) (allLogs @ batch) w2"
          by (rule fetchLoop_next [OF c Some cb [unfolded Inr]])
        have d2: "db w2 = commitPage p f (db w) (from, ?e)"
          using page Inr by (simp add: commitPage_def pl)
        obtain k where k: "k \<le> length (pages pageSize (?e + 1) to)"
          "db (snd (fetchLoop p f pageSize ?h to (?e + 1) (allLogs @ batch) w2))
             = foldl (commitPage p f) (db w2) (take k (pages pageSize (?e + 1) to))"
          "isl (fst (fetchLoop p f pageSize ?h to (?e + 1) (allLogs @ batch) w2))
             \<or> k = length (pages pageSize (?e + 1) to)"
          using "1.IH" [OF True, of "allLogs @ batch" w2] by blast
        show ?thesis using k run d2 pg by (intro exI [of _ "Suc k"]) simp
      qed
    qed
  qed
qed

lemma fetchRangeToCache_commits:
  assumes "\<forall>h. batchCallback = Some h \<longrightarrow> (\<forall>a b c d w. db (snd (h a b c d w)) = db w)"
  shows "\<exists>k \<le> length (walkedPages p f pageSize).
      db (snd (fetchRangeToCache p f pageSize batchCallback w))
        = foldl (commitPage p f) (db w) (take k (walkedPages p f pageSize))
    \<and> (fst (fetchRangeToCache p f pageSize batchCallback w) = Inr ()
          \<longrightarrow> k = length (walkedPages p f pageSize))"
proof (cases "pageSize < 1")
  case True
  then show ?thesis
    by (intro exI [of _ 0]) (simp add: fetchRangeToCache_def fetchLogs_def io_bind_def io_throw_def)
next
  case ps: False
  show ?thesis
  proof (cases "toStrictFilter p f (Tag ''latest'')")
    case (Inl e)
    then show ?thesis using ps
      by (intro exI [of _ 0])
         (simp add: fetchRangeToCache_def fetchLogs_def io_bind_def io_lift_def walkedPages_def)
  next
    case (Inr r)
    let ?run = "fetchLoop p f pageSize (Some (cachePage (getFilterId p f) batchCallback))
                  (toBlock r) (fromBlock r) [] w"
    obtain k where k: "k \<le> length (pages pageSize (fromBlock r) (toBlock r))"
      "db (snd ?run) = foldl (commitPage p f) (db w) (take k (pages pageSize (fromBlock r) (toBlock r)))"
      "isl (fst ?run) \<or> k = length (pages pageSize (fromBlock r) (toBlock r))"
      using fetchLoop_commits [OF assms, of pageSize "fromBlock r" "toBlock r" p f "[]" w] by blast
    have eq: "fetchRangeToCache p f pageSize batchCallback w =
        (case ?run of (Inl e, w') \<Rightarrow> (Inl e, w') | (Inr ls, w') \<Rightarrow> (Inr (), w'))"
      using ps Inr
      by (simp add: fetchRangeToCache_def fetchLogs_def io_bind_def io_lift_def io_return_def
            split: prod.split sum.split)
    show ?thesis
    proof (cases ?run)
      case (Pair res w')
      then show ?thesis using k eq Inr
        by (intro exI [of _ k]) (cases res; simp add: walkedPages_def)
    qed
  qed
qed

lemma progressBatch_db: "db (snd (progressBatch cb ms i n a b c d w)) = db w"
  by (simp add: progressBatch_def Let_def split: option.split)

lemma insertLogRow_logs:
  "logs (insertLogRow row d) = logs d \<or> logs (insertLogRow row d) = logs d @ [row]"
  by (simp add: insertLogRow_def)

lemma insertLogRow_ranges: "fetched_ranges (insertLogRow row d) = fetched_ranges d"
  by (simp add: insertLogRow_def)

lemma insertLogRow_has: "hasRecord fid log (insertLogRow (logRow fid log) d)"
  by (auto simp: insertLogRow_def hasRecord_def logRow_def list_ex_iff)

lemma hasRecord_mono:
  "hasRecord fid log d \<Longrightarrow> logs d' = logs d @ new \<Longrightarrow> hasRecord fid log d'"
  by (auto simp: hasRecord_def list_ex_iff)

lemma insertLogRows_ranges: "fetched_ranges (insertLogRows fid batch d) = fetched_ranges d"
  unfolding insertLogRows_def
  by (induction batch arbitrary: d) (simp_all add: insertLogRow_ranges)

lemma insertLogRows_logs:
  "\<exists>new. logs (insertLogRows fid batch d) = logs d @ new \<and> set new \<subseteq> logRow fid ` set batch"
proof (induction batch arbitrary: d)
  case Nil
  then show ?case by (simp add: insertLogRows_def)
next
  case (Cons l ls)
  let ?d1 = "insertLogRow (logRow fid l) d"
  obtain new where new: "logs (insertLogRows fid ls ?d1) = logs ?d1 @ new"
      "set new \<subseteq> logRow fid ` set ls"
    using Cons.IH [of ?d1] by blast
  have step: "insertLogRows fid (l # ls) d = insertLogRows fid ls ?d1"
    by (simp add: insertLogRows_def)
  from insertLogRow_logs [of "logRow fid l" d] show ?case
  proof
    assume "logs ?d1 = logs d"
    then show ?thesis using new step by (intro exI [of _ new]) auto
  next
    assume "logs ?d1 = logs d @ [logRow fid l]"
    then show ?thesis using new step by (intro exI [of _ "logRow fid l # new"]) auto
  qed
qed

lemma insertLogRows_has: "hasRecords fid batch (insertLogRows fid batch d)"
proof (induction batch arbitrary: d)
  case Nil
  then show ?case by (simp add: hasRecords_def)
next
  case (Cons l ls)
  let ?d1 = "insertLogRow (logRow fid l) d"
  have step: "insertLogRows fid (l # ls) d = insertLogRows fid ls ?d1"
    by (simp add: insertLogRows_def)
  obtain new where new: "logs (insertLogRows fid ls ?d1) = logs ?d1 @ new"
    using insertLogRows_logs [of fid ls ?d1] by blast
  have "hasRecord fid l (insertLogRows fid ls ?d1)"
    by (rule hasRecord_mono [OF insertLogRow_has new])
  moreover have "hasRecords fid ls (insertLogRows fid ls ?d1)" by (rule Cons.IH)
  ultimately show ?case by (simp add: step hasRecords_def)
qed

lemma hasRecords_mono:
  "hasRecords fid batch d \<Longrightarrow> logs d' = logs d @ new \<Longrightarrow> hasRecords fid batch d'"
  using hasRecord_mono by (fastforce simp: hasRecords_def list_all_iff)

text \<open>The store with a page committed, table by table.\<close>

lemma commitPage_ranges:
  "fetched_ranges (commitPage p f d pg) = fetched_ranges d @ [rangeRow (getFilterId p f) pg]"
  by (simp add: commitPage_def insertRangeRow_def insertLogRows_ranges rangeRow_def)

lemma commitPage_logs:
  "\<exists>new. logs (commitPage p f d pg) = logs d @ new
         \<and> set new \<subseteq> logRow (getFilterId p f) ` set (pageLogs p f pg)"
  using insertLogRows_logs [of "getFilterId p f" "pageLogs p f pg" d]
  by (simp add: commitPage_def insertRangeRow_def)

lemma commitPage_has: "hasRecords (getFilterId p f) (pageLogs p f pg) (commitPage p f d pg)"
proof -
  have "hasRecords (getFilterId p f) (pageLogs p f pg)
          (insertLogRows (getFilterId p f) (pageLogs p f pg) d)"
    by (rule insertLogRows_has)
  then show ?thesis
    by (rule hasRecords_mono [where new = "[]"]) (simp add: commitPage_def insertRangeRow_def)
qed

lemma commitPages_tables:
  "fetched_ranges (foldl (commitPage p f) d pgs)
     = fetched_ranges d @ map (rangeRow (getFilterId p f)) pgs
   \<and> (\<exists>new. logs (foldl (commitPage p f) d pgs) = logs d @ new
          \<and> set new \<subseteq> (\<Union>pg \<in> set pgs. logRow (getFilterId p f) ` set (pageLogs p f pg)))
   \<and> (\<forall>pg \<in> set pgs. hasRecords (getFilterId p f) (pageLogs p f pg)
                          (foldl (commitPage p f) d pgs))"
proof (induction pgs rule: rev_induct)
  case Nil
  then show ?case by simp
next
  case (snoc pg pgs)
  let ?fid = "getFilterId p f"
  let ?d1 = "foldl (commitPage p f) d pgs"
  let ?d2 = "commitPage p f ?d1 pg"
  have fold: "foldl (commitPage p f) d (pgs @ [pg]) = ?d2" by simp
  obtain new1 where new1: "logs ?d1 = logs d @ new1"
      "set new1 \<subseteq> (\<Union>pg \<in> set pgs. logRow ?fid ` set (pageLogs p f pg))"
    using snoc.IH by blast
  obtain new2 where new2: "logs ?d2 = logs ?d1 @ new2"
      "set new2 \<subseteq> logRow ?fid ` set (pageLogs p f pg)"
    using commitPage_logs [of p f ?d1 pg] by blast
  have r: "fetched_ranges ?d2 = fetched_ranges d @ map (rangeRow ?fid) (pgs @ [pg])"
    using snoc.IH by (simp add: commitPage_ranges)
  have l: "logs ?d2 = logs d @ (new1 @ new2)"
    "set (new1 @ new2) \<subseteq> (\<Union>pg \<in> set (pgs @ [pg]). logRow ?fid ` set (pageLogs p f pg))"
    using new1 new2 by auto
  have h: "hasRecords ?fid (pageLogs p f q) ?d2" if "q \<in> set (pgs @ [pg])" for q
  proof (cases "q = pg")
    case True
    then show ?thesis by (simp add: commitPage_has)
  next
    case False
    then have "hasRecords ?fid (pageLogs p f q) ?d1" using that snoc.IH by simp
    then show ?thesis using new2(1) by (rule hasRecords_mono)
  qed
  show ?case unfolding fold using r l h by blast
qed

lemma appended_rows:
  assumes "logs d' = logs d @ new" "set new \<subseteq> A"
  shows "take (length (logs d)) (logs d') = logs d
       \<and> list_all (\<lambda>row. row \<in> A) (drop (length (logs d)) (logs d'))"
  using assms by (auto simp: list_all_iff)

lemma pageCommitted_both:
  "pageCommitted fid batch a b d (insertRangeRow fid a b (insertLogRows fid batch d))"
proof -
  let ?both = "insertRangeRow fid a b (insertLogRows fid batch d)"
  have "hasRecords fid batch (insertLogRows fid batch d)" by (rule insertLogRows_has)
  then have h: "hasRecords fid batch ?both"
    by (rule hasRecords_mono [where new = "[]"]) (simp add: insertRangeRow_def)
  have r: "fetched_ranges ?both = fetched_ranges d @ [rangeRow fid (a, b)]"
    by (simp add: insertRangeRow_def insertLogRows_ranges rangeRow_def)
  obtain new where new: "logs ?both = logs d @ new" "set new \<subseteq> logRow fid ` set batch"
    using insertLogRows_logs [of fid batch d] by (auto simp: insertRangeRow_def)
  show ?thesis
    unfolding pageCommitted_def using h r appended_rows [OF new] by blast
qed

lemma pageCommitted_differs: "pageCommitted fid batch a b d d' \<Longrightarrow> d' \<noteq> d"
  by (auto simp: pageCommitted_def)

lemma pagesCommitted_fold: "pagesCommitted p f pgs d (foldl (commitPage p f) d pgs)"
proof -
  let ?d' = "foldl (commitPage p f) d pgs"
  let ?fid = "getFilterId p f"
  note t = commitPages_tables [of p f d pgs]
  obtain new where new0: "logs ?d' = logs d @ new"
      "set new \<subseteq> (\<Union>pg \<in> set pgs. logRow ?fid ` set (pageLogs p f pg))"
    using t by blast
  have "set new \<subseteq> {row. \<exists>pg \<in> set pgs. row \<in> logRow ?fid ` set (pageLogs p f pg)}"
    using new0(2) by blast
  note new = new0(1) this
  have "list_all (\<lambda>pg. hasRecords ?fid (pageLogs p f pg) ?d') pgs"
    using t by (simp add: list_all_iff)
  moreover have "fetched_ranges ?d' = fetched_ranges d @ map (rangeRow ?fid) pgs"
    using t by simp
  ultimately show ?thesis
    unfolding pagesCommitted_def using appended_rows [OF new] by simp
qed

text \<open>
  Claim C6. The inserts of a page's records and the insert of the page's range run in
  one transaction. Whatever the store statements do, after the handler of a page the
  store is either as it was, or the page is committed: every record of the page has
  its row in \<open>logs\<close>, the page's exact range is the one row added to \<open>fetched_ranges\<close>,
  the earlier rows are untouched and no other row was added. The page is committed
  when the handler returns. After \<open>_fetchRangeToCache\<close>, failed or not, the first \<open>k\<close>
  pages are committed in this sense and nothing else was written; \<open>k\<close> is the number of
  pages when it returns. The callback passed on is one that does not write to the
  store, as the one \<open>fetchLogsToCache\<close> passes.
\<close>

theorem page_commit_atomic:
  assumes "\<forall>h. batchCallback = Some h \<longrightarrow> (\<forall>a b c d w. db (snd (h a b c d w)) = db w)"
  shows "(db (snd (cachePage fid batchCallback allLogs thisBatchLogs thisBatchFrom thisBatchTo w))
            = db w
          \<or> pageCommitted fid thisBatchLogs thisBatchFrom thisBatchTo (db w)
               (db (snd (cachePage fid batchCallback allLogs thisBatchLogs thisBatchFrom
                           thisBatchTo w))))
       \<and> (fst (cachePage fid batchCallback allLogs thisBatchLogs thisBatchFrom thisBatchTo w) = Inr ()
            \<longrightarrow> pageCommitted fid thisBatchLogs thisBatchFrom thisBatchTo (db w)
                  (db (snd (cachePage fid batchCallback allLogs thisBatchLogs thisBatchFrom
                              thisBatchTo w))))
       \<and> (\<exists>k \<le> length (walkedPages p f pageSize).
             pagesCommitted p f (take k (walkedPages p f pageSize)) (db w)
               (db (snd (fetchRangeToCache p f pageSize batchCallback w)))
           \<and> (fst (fetchRangeToCache p f pageSize batchCallback w) = Inr ()
                 \<longrightarrow> k = length (walkedPages p f pageSize)))"
proof -
  obtain r w' where c: "cachePage fid batchCallback allLogs thisBatchLogs thisBatchFrom thisBatchTo w
      = (r, w')"
    by (cases "cachePage fid batchCallback allLogs thisBatchLogs thisBatchFrom thisBatchTo w")
  note page = cachePage_cases [OF assms c]
  note both = pageCommitted_both [of fid thisBatchLogs thisBatchFrom thisBatchTo "db w"]
  have first: "(db w' = db w \<or> pageCommitted fid thisBatchLogs thisBatchFrom thisBatchTo (db w) (db w'))
       \<and> (r = Inr () \<longrightarrow> pageCommitted fid thisBatchLogs thisBatchFrom thisBatchTo (db w) (db w'))"
    using page both by metis
  obtain k where k: "k \<le> length (walkedPages p f pageSize)"
      "db (snd (fetchRangeToCache p f pageSize batchCallback w))
         = foldl (commitPage p f) (db w) (take k (walkedPages p f pageSize))"
      "fst (fetchRangeToCache p f pageSize batchCallback w) = Inr ()
         \<longrightarrow> k = length (walkedPages p f pageSize)"
    using fetchRangeToCache_commits [OF assms, of p f pageSize w] by blast
  have "pagesCommitted p f (take k (walkedPages p f pageSize)) (db w)
          (db (snd (fetchRangeToCache p f pageSize batchCallback w)))"
    unfolding k(2) by (rule pagesCommitted_fold)
  then have second: "\<exists>k \<le> length (walkedPages p f pageSize).
             pagesCommitted p f (take k (walkedPages p f pageSize)) (db w)
               (db (snd (fetchRangeToCache p f pageSize batchCallback w)))
           \<and> (fst (fetchRangeToCache p f pageSize batchCallback w) = Inr ()
                 \<longrightarrow> k = length (walkedPages p f pageSize))"
    using k(1,3) by blast
  show ?thesis using first second unfolding c by simp
qed

theorem page_commit_atomic_witness:
  "cachePage ''filter'' (Some (progressBatch None [] 0 1)) [logAt 1] [logAt 1] 1 1 emptyWorld
     = (Inr (),
        emptyWorld\<lparr>db := \<lparr>logs = [\<lparr>filterId = ''filter'', blockNumber = 1, logIndex = 0,
                                      data = logAt 1\<rparr>],
                              fetched_ranges = [(''filter'', \<lparr>fromBlock = 1, toBlock = 1\<rparr>)]\<rparr>,
                    totalScannedBlocks := 1\<rparr>)
 \<and> pageCommitted ''filter'' [logAt 1] 1 1 (db emptyWorld)
       (db (snd (cachePage ''filter'' (Some (progressBatch None [] 0 1)) [logAt 1] [logAt 1] 1 1
                   emptyWorld)))
 \<and> cachePage ''filter'' (Some (progressBatch None [] 0 1)) [logAt 1] [logAt 1] 1 1
       (emptyWorld\<lparr>faults := [False, True]\<rparr>)
     = (Inl StoreFailure, emptyWorld)
 \<and> fetchRangeToCache (chainProvider [logAt 0, logAt 1] 1 1) anyFilter 1
       (Some (progressBatch None [] 0 2)) emptyWorld
     = (Inr (),
        \<lparr>db = \<lparr>logs = [\<lparr>filterId = ''filter'', blockNumber = 0, logIndex = 0, data = logAt 0\<rparr>,
                       \<lparr>filterId = ''filter'', blockNumber = 1, logIndex = 0, data = logAt 1\<rparr>],
               fetched_ranges = [(''filter'', \<lparr>fromBlock = 0, toBlock = 0\<rparr>),
                                 (''filter'', \<lparr>fromBlock = 1, toBlock = 1\<rparr>)]\<rparr>,
         faults = [],
         trace = [RpcGetLogs (withRange anyFilter 0 0), RpcGetLogs (withRange anyFilter 1 1)],
         totalScannedBlocks = 2\<rparr>)
 \<and> fst (fetchRangeToCache (chainProvider [logAt 0, logAt 1] 1 1) anyFilter 1
          (Some (progressBatch None [] 0 2))
          (emptyWorld\<lparr>faults := [False, False, False, True]\<rparr>))
     = Inl StoreFailure
 \<and> db (snd (fetchRangeToCache (chainProvider [logAt 0, logAt 1] 1 1) anyFilter 1
          (Some (progressBatch None [] 0 2))
          (emptyWorld\<lparr>faults := [False, False, False, True]\<rparr>)))
     = \<lparr>logs = [\<lparr>filterId = ''filter'', blockNumber = 0, logIndex = 0, data = logAt 0\<rparr>],
        fetched_ranges = [(''filter'', \<lparr>fromBlock = 0, toBlock = 0\<rparr>)]\<rparr>
 \<and> (\<exists>k \<le> length (walkedPages (chainProvider [logAt 0, logAt 1] 1 1) anyFilter 1).
       pagesCommitted (chainProvider [logAt 0, logAt 1] 1 1) anyFilter
         (take k (walkedPages (chainProvider [logAt 0, logAt 1] 1 1) anyFilter 1))
         (db (emptyWorld\<lparr>faults := [False, False, False, True]\<rparr>))
         (db (snd (fetchRangeToCache (chainProvider [logAt 0, logAt 1] 1 1) anyFilter 1
                (Some (progressBatch None [] 0 2))
                (emptyWorld\<lparr>faults := [False, False, False, True]\<rparr>)))))"
proof -
  let ?cb = "Some (progressBatch None [] 0 1)"
  let ?cb2 = "Some (progressBatch None [] 0 2)"
  let ?q = "chainProvider [logAt 0, logAt 1] 1 1"
  let ?wf = "emptyWorld\<lparr>faults := [False, False, False, True]\<rparr>"
  have h: "\<forall>h. Some (progressBatch None [] 0 n) = Some h \<longrightarrow>
             (\<forall>a b c d w. db (snd (h a b c d w)) = db w)" for n
    by (simp add: progressBatch_db)
  have ok: "cachePage ''filter'' ?cb [logAt 1] [logAt 1] 1 1 emptyWorld
     = (Inr (),
        emptyWorld\<lparr>db := \<lparr>logs = [\<lparr>filterId = ''filter'', blockNumber = 1, logIndex = 0,
                                      data = logAt 1\<rparr>],
                              fetched_ranges = [(''filter'', \<lparr>fromBlock = 1, toBlock = 1\<rparr>)]\<rparr>,
                    totalScannedBlocks := 1\<rparr>)"
    by code_simp
  have fail: "cachePage ''filter'' ?cb [logAt 1] [logAt 1] 1 1 (emptyWorld\<lparr>faults := [False, True]\<rparr>)
     = (Inl StoreFailure, emptyWorld)"
    by code_simp
  have run: "fetchRangeToCache ?q anyFilter 1 ?cb2 emptyWorld
     = (Inr (),
        \<lparr>db = \<lparr>logs = [\<lparr>filterId = ''filter'', blockNumber = 0, logIndex = 0, data = logAt 0\<rparr>,
                       \<lparr>filterId = ''filter'', blockNumber = 1, logIndex = 0, data = logAt 1\<rparr>],
               fetched_ranges = [(''filter'', \<lparr>fromBlock = 0, toBlock = 0\<rparr>),
                                 (''filter'', \<lparr>fromBlock = 1, toBlock = 1\<rparr>)]\<rparr>,
         faults = [],
         trace = [RpcGetLogs (withRange anyFilter 0 0), RpcGetLogs (withRange anyFilter 1 1)],
         totalScannedBlocks = 2\<rparr>)"
    by code_simp
  have cut: "fst (fetchRangeToCache ?q anyFilter 1 ?cb2 ?wf) = Inl StoreFailure
     \<and> db (snd (fetchRangeToCache ?q anyFilter 1 ?cb2 ?wf))
       = \<lparr>logs = [\<lparr>filterId = ''filter'', blockNumber = 0, logIndex = 0, data = logAt 0\<rparr>],
          fetched_ranges = [(''filter'', \<lparr>fromBlock = 0, toBlock = 0\<rparr>)]\<rparr>"
    by code_simp
  note page = page_commit_atomic [OF h [of 1], where fid = "''filter''" and allLogs = "[logAt 1]"
      and thisBatchLogs = "[logAt 1]" and thisBatchFrom = 1 and thisBatchTo = 1 and w = emptyWorld
      and p = ?q and f = anyFilter and pageSize = 1]
  have committed: "pageCommitted ''filter'' [logAt 1] 1 1 (db emptyWorld)
       (db (snd (cachePage ''filter'' ?cb [logAt 1] [logAt 1] 1 1 emptyWorld)))"
    using page ok by simp
  note range = page_commit_atomic [OF h [of 2], where fid = "''filter''" and allLogs = "[logAt 1]"
      and thisBatchLogs = "[logAt 1]" and thisBatchFrom = 1 and thisBatchTo = 1 and w = ?wf
      and p = ?q and f = anyFilter and pageSize = 1]
  have prefix: "\<exists>k \<le> length (walkedPages ?q anyFilter 1).
       pagesCommitted ?q anyFilter (take k (walkedPages ?q anyFilter 1)) (db ?wf)
         (db (snd (fetchRangeToCache ?q anyFilter 1 ?cb2 ?wf)))"
    using range by blast
  show ?thesis using ok committed fail run cut prefix by simp
qed

section \<open>A cached range is not fetched again\<close>

lemma stmt_all_ok: "faults w = [] \<Longrightarrow> stmt_all q w = (Inr (q (db w)), w)"
  by (simp add: stmt_all_def)

lemma stmt_run_ok: "faults w = [] \<Longrightarrow> stmt_run upd w = (Inr (), w\<lparr>db := upd (db w)\<rparr>)"
  by (simp add: stmt_run_def)

lemma insertRanges_ok:
  "faults w = [] \<Longrightarrow> insertRanges fid rs w = (Inr (), w\<lparr>db := insertRangeRows fid rs (db w)\<rparr>)"
proof (induction rs arbitrary: w)
  case Nil
  then show ?case by (simp add: io_return_def insertRangeRows_def)
next
  case (Cons r rs)
  have "faults (w\<lparr>db := insertRangeRow fid (fromBlock r) (toBlock r) (db w)\<rparr>) = []"
    using Cons.prems by simp
  from Cons.IH [OF this] show ?case
    using Cons.prems by (simp add: io_bind_def insertRange_def stmt_run_ok insertRangeRows_def)
qed

lemma tidyUpRanges_ok:
  "faults w = [] \<Longrightarrow> tidyUpRanges fid w = (Inr (), w\<lparr>db := tidied fid (db w)\<rparr>)"
  by (simp add: tidyUpRanges_def transaction_def io_bind_def selectRanges_def stmt_all_ok
        io_return_def replaceRanges_def stmt_run_ok insertRanges_ok tidied_def)

lemma logs_insertRangeRows: "logs (insertRangeRows fid rs d) = logs d"
  unfolding insertRangeRows_def
  by (induction rs arbitrary: d) (simp_all add: insertRangeRow_def)

lemma fetched_insertRangeRows:
  "fetched_ranges (insertRangeRows fid rs d) = fetched_ranges d @ map (\<lambda>r. (fid, r)) rs"
  unfolding insertRangeRows_def
  by (induction rs arbitrary: d) (simp_all add: insertRangeRow_def)

lemma logs_tidied: "logs (tidied fid d) = logs d"
  by (simp add: tidied_def logs_insertRangeRows deleteRanges_def)

lemma blocks_of_sort_key: "blocks_of (sort_key k rs) = blocks_of rs"
  by (simp add: blocks_of_def)

lemma selectedRanges_replaced:
  "selectedRanges fid (insertRangeRows fid rs (deleteRanges fid d)) = sort_key fromBlock rs"
proof -
  have "filter (\<lambda>row. fst row = fid) (filter (\<lambda>row. fst row \<noteq> fid) (fetched_ranges d)) = []"
    by (induction "fetched_ranges d") (auto simp: filter_empty_conv)
  moreover have "map snd (filter (\<lambda>row. fst row = fid) (map (\<lambda>r. (fid, r)) rs)) = rs"
    by (induction rs) simp_all
  ultimately show ?thesis
    by (simp add: selectedRanges_def fetched_insertRangeRows deleteRanges_def)
qed

lemma blocks_selected_tidied:
  "blocks_of (selectedRanges fid (tidied fid d)) = blocks_of (selectedRanges fid d)"
  by (simp add: tidied_def selectedRanges_replaced blocks_of_sort_key blocks_mergeRanges)

lemma subtractOne_valid: "valid z \<Longrightarrow> r \<in> set (subtractOne x z) \<Longrightarrow> valid r"
  by (cases "toBlock x < fromBlock z \<or> fromBlock x > toBlock z";
      cases "fromBlock x > fromBlock z"; cases "toBlock x < toBlock z")
     (auto simp: subtractOne_def valid_def)

lemma subtractLoop_valid:
  "\<forall>r \<in> set z. valid r \<Longrightarrow> \<forall>r \<in> set (subtractLoop z have). valid r"
proof (induction "have" arbitrary: z)
  case Nil
  then show ?case by simp
next
  case (Cons x xs)
  have "\<forall>r \<in> set (concat (map (subtractOne x) z)). valid r"
    using Cons.prems subtractOne_valid by auto
  then have "\<forall>r \<in> set (subtractLoop (concat (map (subtractOne x) z)) xs). valid r"
    by (rule Cons.IH)
  then show ?case by simp
qed

lemma subtractRanges_covered:
  assumes "valid want" "blocks want \<subseteq> blocks_of have"
  shows "subtractRanges want have = []"
proof (rule ccontr)
  assume "subtractRanges want have \<noteq> []"
  then obtain r where r: "r \<in> set (subtractRanges want have)"
    by (cases "subtractRanges want have") auto
  have "valid r"
    using subtractLoop_valid [of "[want]" "have"] assms(1) r by (simp add: subtractRanges_def)
  then have "fromBlock r \<in> blocks r" by (simp add: valid_def blocks_def)
  then have "fromBlock r \<in> blocks_of (subtractRanges want have)"
    using r by (auto simp: blocks_of_def)
  then show False using assms(2) by (auto simp: blocks_subtractRanges)
qed

lemma fetchLogsToCache_covered:
  assumes "1 \<le> pageSize" "faults w = []"
    and "toStrictFilter p f (Tag ''finalized'') = Inr sf"
    and "getFinalizedBlockNumber p = Inr L" "toBlock sf \<le> L"
    and "valid sf" "blocks sf \<subseteq> blocks_of (selectedRanges (getFilterId p f) (db w))"
  shows "fetchLogsToCache p f pageSize cb w =
           (Inr (), w\<lparr>db := tidied (getFilterId p f) (tidied (getFilterId p f) (db w)),
                       totalScannedBlocks := 0\<rparr>)"
    and "getMissingRanges (getFilterId p f) sf (snd (tidyUpRanges (getFilterId p f) w)) =
           (Inr [], snd (tidyUpRanges (getFilterId p f) w))"
proof -
  let ?fid = "getFilterId p f"
  let ?w1 = "w\<lparr>db := tidied ?fid (db w)\<rparr>"
  have f1: "faults ?w1 = []" using assms(2) by simp
  have t1: "tidyUpRanges ?fid w = (Inr (), ?w1)" by (rule tidyUpRanges_ok [OF assms(2)])
  have "blocks sf \<subseteq> blocks_of (selectedRanges ?fid (db ?w1))"
    using assms(7) by (simp add: blocks_selected_tidied)
  then have none: "subtractRanges sf (selectedRanges ?fid (db ?w1)) = []"
    by (rule subtractRanges_covered [OF assms(6)])
  have m: "getMissingRanges ?fid sf ?w1 = (Inr [], ?w1)"
    using none by (simp add: getMissingRanges_def io_bind_def selectRanges_def stmt_all_ok [OF f1]
        io_return_def)
  show "getMissingRanges ?fid sf (snd (tidyUpRanges ?fid w)) =
           (Inr [], snd (tidyUpRanges ?fid w))"
    using m t1 by simp
  let ?w2 = "?w1\<lparr>totalScannedBlocks := 0\<rparr>"
  have f2: "faults ?w2 = []" using assms(2) by simp
  have t2: "tidyUpRanges ?fid ?w2 = (Inr (), ?w2\<lparr>db := tidied ?fid (db ?w2)\<rparr>)"
    by (rule tidyUpRanges_ok [OF f2])
  show "fetchLogsToCache p f pageSize cb w =
           (Inr (), w\<lparr>db := tidied ?fid (tidied ?fid (db w)), totalScannedBlocks := 0\<rparr>)"
    using assms(1,3,4,5) t1 m t2
    by (simp add: fetchLogsToCache_def io_bind_def io_lift_def resetTotalScannedBlocks_def
          io_return_def)
qed

lemma tagToNumber_agree:
  "provider_getBlock p' = provider_getBlock p \<Longrightarrow> tagToNumber p' tag = tagToNumber p tag"
  unfolding tagToNumber_def by (erule subst) (rule refl)

lemma toStrictFilter_agree:
  assumes "provider_getBlock p' = provider_getBlock p"
  shows "toStrictFilter p' f d = toStrictFilter p f d"
proof -
  have "tagToNumber p' tag = tagToNumber p tag" for tag
    by (rule tagToNumber_agree [OF assms])
  then show ?thesis unfolding toStrictFilter_def by (simp cong: sum.case_cong)
qed

lemma getFinalizedBlockNumber_agree:
  "provider_getBlock p' = provider_getBlock p \<Longrightarrow>
   getFinalizedBlockNumber p' = getFinalizedBlockNumber p"
  unfolding getFinalizedBlockNumber_def by (erule subst) (rule refl)

lemma getFilterId_agree:
  "provider_filterId p' = provider_filterId p \<Longrightarrow> getFilterId p' f = getFilterId p f"
  unfolding getFilterId_def by (erule subst) (rule refl)

lemma getFilterId_withRange: "getFilterId p (withRange f a b) = getFilterId p f"
  by (simp add: getFilterId_def withRange_def)

lemma selectedLogs_logs: "logs d = logs d' \<Longrightarrow> selectedLogs fid a b d = selectedLogs fid a b d'"
  by (simp add: selectedLogs_def)

lemma stmt_all_cases:
  assumes "stmt_all q w = (Inr a, w')"
  shows "a = q (db w) \<and> db w' = db w \<and> trace w' = trace w"
  using assms by (auto simp: stmt_all_def split: list.splits if_splits)

lemma readLogsFromCache_cases:
  assumes "readLogsFromCache p g w = (Inr ls, w')"
  shows "\<exists>sr. toStrictFilter p g (Tag ''latest'') = Inr sr
           \<and> ls = map data (selectedLogs (getFilterId p g) (fromBlock sr) (toBlock sr) (db w))
           \<and> db w' = db w \<and> trace w' = trace w"
proof (cases "toStrictFilter p g (Tag ''latest'')")
  case (Inl e)
  then show ?thesis using assms by (simp add: readLogsFromCache_def io_bind_def io_lift_def)
next
  case (Inr sr)
  obtain r wa where s: "stmt_all (selectedLogs (getFilterId p g) (fromBlock sr) (toBlock sr)) w
      = (r, wa)"
    by (cases "stmt_all (selectedLogs (getFilterId p g) (fromBlock sr) (toBlock sr)) w")
  show ?thesis
  proof (cases r)
    case (Inl e)
    then show ?thesis using assms Inr s
      by (simp add: readLogsFromCache_def io_bind_def io_lift_def selectLogs_def)
  next
    case rows: (Inr rows)
    then have "ls = map data rows" "w' = wa"
      using assms Inr s
      by (simp_all add: readLogsFromCache_def io_bind_def io_lift_def selectLogs_def io_return_def)
    then show ?thesis using stmt_all_cases [OF s [unfolded rows]] Inr by simp
  qed
qed

lemma readLogsFromCache_ok:
  assumes "faults w = []" "toStrictFilter p g (Tag ''latest'') = Inr sr"
  shows "readLogsFromCache p g w =
     (Inr (map data (selectedLogs (getFilterId p g) (fromBlock sr) (toBlock sr) (db w))), w)"
  using assms
  by (simp add: readLogsFromCache_def io_bind_def io_lift_def selectLogs_def stmt_all_ok
        io_return_def)

lemma getLogs_finalized_parts:
  assumes "getLogs p f pageSize c1 c2 w0 = (Inr logs1, w1)"
    and "provider_getBlock p ''finalized'' = Some L"
    and "toStrictFilter p f (Tag ''latest'') = Inr sf" "toBlock sf \<le> L"
  shows "\<exists>wa. fetchLogsToCache p (withRange f (fromBlock sf) (toBlock sf)) pageSize c1 w0
               = (Inr (), wa)
           \<and> readLogsFromCache p (withRange f (fromBlock sf) (toBlock sf)) wa = (Inr logs1, w1)"
proof -
  let ?g = "withRange f (fromBlock sf) (toBlock sf)"
  have m: "min (toBlock sf) L = toBlock sf" using assms(4) by simp
  obtain r1 wa where a: "fetchLogsToCache p ?g pageSize c1 w0 = (r1, wa)"
    by (cases "fetchLogsToCache p ?g pageSize c1 w0")
  obtain r2 wb where b: "readLogsFromCache p ?g wa = (r2, wb)"
    by (cases "readLogsFromCache p ?g wa")
  have run: "getLogs p f pageSize c1 c2 w0 =
      (case r1 of Inl e \<Rightarrow> (Inl e, wa)
       | Inr u \<Rightarrow> (case r2 of Inl e \<Rightarrow> (Inl e, wb) | Inr ls \<Rightarrow> (Inr ls, wb)))"
    using assms(2,3,4) a b
    by (simp add: getLogs_def io_bind_def io_lift_def io_return_def m split: sum.split)
  show ?thesis
  proof (cases r1)
    case (Inl e)
    then show ?thesis using run assms(1) by simp
  next
    case u: (Inr u)
    show ?thesis
    proof (cases r2)
      case (Inl e)
      then show ?thesis using run u assms(1) by simp
    next
      case (Inr ls)
      then show ?thesis using run u assms(1) a b by simp
    qed
  qed
qed

lemma fetchLogsToCache_passed:
  assumes "fetchLogsToCache p g pageSize cb w = (Inr u, w')"
    and "toStrictFilter p g (Tag ''finalized'') = Inr want"
    and "provider_getBlock p ''finalized'' = Some L"
  shows "1 \<le> pageSize \<and> toBlock want \<le> L"
proof -
  have fin: "getFinalizedBlockNumber p = Inr L"
    using assms(3) by (simp add: getFinalizedBlockNumber_def)
  have "\<not> pageSize < 1"
    using assms(1) by (auto simp: fetchLogsToCache_def io_throw_def)
  moreover have "\<not> toBlock want > L"
    using assms(1,2) fin calculation
    by (auto simp: fetchLogsToCache_def io_bind_def io_lift_def io_throw_def)
  ultimately show ?thesis by simp
qed

text \<open>
  On the range that \<open>toStrictFilter\<close> resolves for the filter: when it is a valid range,
  not above the last finalized block, and the stored ranges cover it, \<open>fetchLogsToCache\<close>
  computes an empty missing-range list and fetches nothing, and a second \<open>getLogs\<close> from
  the state a first one left returns the records of the first.
\<close>

lemma resolved_range_not_refetched:
  assumes "1 \<le> pageSize"
    and "faults w = []"
    and "provider_getBlock p ''finalized'' = Some lastFinalized"
    and "toStrictFilter p g (Tag ''finalized'') = Inr want"
    and "valid want"
    and "toBlock want \<le> lastFinalized"
    and "blocks want \<subseteq> blocks_of (selectedRanges (getFilterId p g) (db w))"
  shows "(\<exists>w2. fetchLogsToCache p g pageSize batchCallback w = (Inr (), w2)
            \<and> trace w2 = trace w \<and> logs (db w2) = logs (db w))
       \<and> fst (getMissingRanges (getFilterId p g) want (snd (tidyUpRanges (getFilterId p g) w)))
           = Inr []
       \<and> (\<forall>f p0 w0 c1 c2 logs1 requested.
             getLogs p0 f pageSize c1 c2 w0 = (Inr logs1, w)
           \<and> provider_getBlock p0 = provider_getBlock p
           \<and> provider_filterId p0 = provider_filterId p
           \<and> toStrictFilter p f (Tag ''latest'') = Inr requested
           \<and> toBlock requested \<le> lastFinalized
           \<and> g = withRange f (fromBlock requested) (toBlock requested)
           \<longrightarrow> (\<exists>w3. getLogs p f pageSize finalizedCallback unfinalizedCallback w
                        = (Inr logs1, w3)
                    \<and> trace w3 = trace w))"
proof -
  let ?fid = "getFilterId p g"
  let ?w2 = "w\<lparr>db := tidied ?fid (tidied ?fid (db w)), totalScannedBlocks := 0\<rparr>"
  have fin: "getFinalizedBlockNumber p = Inr lastFinalized"
    using assms(3) by (simp add: getFinalizedBlockNumber_def)
  have cache: "fetchLogsToCache p g pageSize cb w = (Inr (), ?w2)" for cb
    by (rule fetchLogsToCache_covered(1) [OF assms(1,2,4) fin assms(6,5,7)])
  have missing: "fst (getMissingRanges ?fid want (snd (tidyUpRanges ?fid w))) = Inr []"
    using fetchLogsToCache_covered(2) [OF assms(1,2,4) fin assms(6,5,7)] by simp
  have again: "\<exists>w3. getLogs p f pageSize finalizedCallback unfinalizedCallback w = (Inr logs1, w3)
                  \<and> trace w3 = trace w"
    if first: "getLogs p0 f pageSize c1 c2 w0 = (Inr logs1, w)"
      and same: "provider_getBlock p0 = provider_getBlock p"
        "provider_filterId p0 = provider_filterId p"
      and req: "toStrictFilter p f (Tag ''latest'') = Inr requested"
        "toBlock requested \<le> lastFinalized"
      and g: "g = withRange f (fromBlock requested) (toBlock requested)"
    for f p0 w0 c1 c2 logs1 requested
  proof -
    have fin0: "provider_getBlock p0 ''finalized'' = Some lastFinalized"
      using assms(3) same(1) by simp
    have req0: "toStrictFilter p0 f (Tag ''latest'') = Inr requested"
      using req(1) by (simp add: toStrictFilter_agree [OF same(1)])
    obtain wa where wa: "readLogsFromCache p0 g wa = (Inr logs1, w)"
      using getLogs_finalized_parts [OF first fin0 req0 req(2)] g by blast
    obtain sr where sr: "toStrictFilter p0 g (Tag ''latest'') = Inr sr"
        "logs1 = map data (selectedLogs (getFilterId p0 g) (fromBlock sr) (toBlock sr) (db wa))"
        "db w = db wa"
      using readLogsFromCache_cases [OF wa] by auto
    have fid0: "getFilterId p0 g = ?fid" by (rule getFilterId_agree [OF same(2)])
    have sr': "toStrictFilter p g (Tag ''latest'') = Inr sr"
      using sr(1) by (simp add: toStrictFilter_agree [OF same(1)])
    have "faults ?w2 = []" using assms(2) by simp
    then have "readLogsFromCache p g ?w2 =
        (Inr (map data (selectedLogs ?fid (fromBlock sr) (toBlock sr) (db ?w2))), ?w2)"
      using sr' by (rule readLogsFromCache_ok)
    moreover have "selectedLogs ?fid (fromBlock sr) (toBlock sr) (db ?w2)
        = selectedLogs ?fid (fromBlock sr) (toBlock sr) (db wa)"
      by (rule selectedLogs_logs) (simp add: logs_tidied sr(3))
    ultimately have read: "readLogsFromCache p g ?w2 = (Inr logs1, ?w2)"
      using sr(2) fid0 by simp
    have m: "min (toBlock requested) lastFinalized = toBlock requested" using req(2) by simp
    have "getLogs p f pageSize finalizedCallback unfinalizedCallback w = (Inr logs1, ?w2)"
      using assms(3) req cache [of finalizedCallback] read
      by (simp add: getLogs_def io_bind_def io_lift_def io_return_def m g [symmetric])
    then show ?thesis by simp
  qed
  show ?thesis
    using cache [of batchCallback] missing again by (simp add: logs_tidied) blast
qed

lemma resolved_range_not_refetched_example:
  "(\<exists>w2. fetchLogsToCache (chainProvider [] 3 4) (withRange anyFilter 1 3) 2 None cachedWorld
            = (Inr (), w2)
        \<and> trace w2 = trace cachedWorld \<and> logs (db w2) = logs (db cachedWorld))
 \<and> fst (getMissingRanges ''filter'' \<lparr>fromBlock = 1, toBlock = 3\<rparr>
          (snd (tidyUpRanges ''filter'' cachedWorld))) = Inr []
 \<and> (\<exists>w3. getLogs (chainProvider [] 3 4) (withRange anyFilter 1 3) 2 None None cachedWorld
            = (Inr [logAt 1, logAt 2, logAt 3], w3)
        \<and> trace w3 = trace cachedWorld)"
proof -
  let ?q = "chainProvider [logAt 1, logAt 2, logAt 3] 3 4"
  let ?p = "chainProvider [] 3 4"
  let ?f = "withRange anyFilter 1 3"
  have ps: "(1::int) \<le> 2" by simp
  have ok: "faults cachedWorld = []" by (simp add: cachedWorld_def)
  have fin: "provider_getBlock ?p ''finalized'' = Some 3" by (simp add: chainProvider_def)
  have want: "toStrictFilter ?p ?f (Tag ''finalized'') = Inr \<lparr>fromBlock = 1, toBlock = 3\<rparr>"
    by (simp add: toStrictFilter_def tagToNumber_def orDefault_def withRange_def)
  have v: "valid \<lparr>fromBlock = 1, toBlock = 3\<rparr>" by (simp add: valid_def)
  have le: "toBlock \<lparr>fromBlock = 1, toBlock = 3\<rparr> \<le> (3::int)" by simp
  have fid: "getFilterId ?p ?f = ''filter''"
    by (simp add: getFilterId_def chainProvider_def)
  have cov: "blocks \<lparr>fromBlock = 1, toBlock = 3\<rparr>
      \<subseteq> blocks_of (selectedRanges (getFilterId ?p ?f) (db cachedWorld))"
    by (simp add: fid selectedRanges_def cachedWorld_def blocks_of_def)
  have first: "getLogs ?q ?f 2 None None emptyWorld = (Inr [logAt 1, logAt 2, logAt 3], cachedWorld)"
    by code_simp
  have same: "provider_getBlock ?q = provider_getBlock ?p"
    "provider_filterId ?q = provider_filterId ?p"
    by (simp_all add: chainProvider_def)
  have req: "toStrictFilter ?p ?f (Tag ''latest'') = Inr \<lparr>fromBlock = 1, toBlock = 3\<rparr>"
    by (simp add: toStrictFilter_def tagToNumber_def orDefault_def withRange_def)
  have g: "?f = withRange ?f (fromBlock \<lparr>fromBlock = 1, toBlock = 3\<rparr>)
                  (toBlock \<lparr>fromBlock = 1, toBlock = 3\<rparr>)"
    by (simp add: withRange_def)
  note inst = resolved_range_not_refetched [OF ps ok fin want v le cov,
      where batchCallback = None and finalizedCallback = None and unfinalizedCallback = None]
  from inst have a: "\<exists>w2. fetchLogsToCache ?p ?f 2 None cachedWorld = (Inr (), w2)
        \<and> trace w2 = trace cachedWorld \<and> logs (db w2) = logs (db cachedWorld)"
    by blast
  from inst have b: "fst (getMissingRanges ''filter'' \<lparr>fromBlock = 1, toBlock = 3\<rparr>
          (snd (tidyUpRanges ''filter'' cachedWorld))) = Inr []"
    by (simp add: fid)
  from inst have "getLogs ?q ?f 2 None None emptyWorld = (Inr [logAt 1, logAt 2, logAt 3], cachedWorld)
           \<and> provider_getBlock ?q = provider_getBlock ?p
           \<and> provider_filterId ?q = provider_filterId ?p
           \<and> toStrictFilter ?p ?f (Tag ''latest'') = Inr \<lparr>fromBlock = 1, toBlock = 3\<rparr>
           \<and> toBlock \<lparr>fromBlock = 1, toBlock = 3\<rparr> \<le> (3::int)
           \<and> ?f = withRange ?f (fromBlock \<lparr>fromBlock = 1, toBlock = 3\<rparr>)
                  (toBlock \<lparr>fromBlock = 1, toBlock = 3\<rparr>)
           \<longrightarrow> (\<exists>w3. getLogs ?p ?f 2 None None cachedWorld = (Inr [logAt 1, logAt 2, logAt 3], w3)
                    \<and> trace w3 = trace cachedWorld)"
    by blast
  then have c: "\<exists>w3. getLogs ?p ?f 2 None None cachedWorld = (Inr [logAt 1, logAt 2, logAt 3], w3)
                    \<and> trace w3 = trace cachedWorld"
    using first same req le g by blast
  show ?thesis using a b c by blast
qed

text \<open>
  Claim C4 says that when the ranges stored for a filter cover the requested finalized
  range, \<open>fetchLogsToCache\<close> computes an empty missing-range list and fetches nothing
  upstream, and a repeated \<open>getLogs\<close> returns the records of the first call. The code
  does otherwise when the requested upper bound is the number 0, which \<open>toStrictFilter\<close>
  takes for a missing bound. The store below holds the range 0 to 0, left by a call
  made while block 0 was the last finalized block. With block 5 finalized, a request
  for blocks 0 to 0 is covered by that range, yet \<open>fetchLogsToCache\<close> resolves it to
  blocks 0 to 5, computes the missing range 1 to 5, fetches it upstream and records
  the range 0 to 5.
\<close>

theorem fetchLogsToCache_refetches_covered_range:
  "fetchLogsToCache (chainProvider (map logAt [0, 1, 2, 3, 4, 5]) 0 0) anyFilter 10 None emptyWorld
     = (Inr (), blockZeroWorld)
 \<and> selectedRanges (getFilterId (chainProvider (map logAt [0, 1, 2, 3, 4, 5]) 5 5)
                     (withRange anyFilter 0 0)) (db blockZeroWorld)
     = [\<lparr>fromBlock = 0, toBlock = 0\<rparr>]
 \<and> subtractRanges \<lparr>fromBlock = 0, toBlock = 0\<rparr> [\<lparr>fromBlock = 0, toBlock = 0\<rparr>] = []
 \<and> provider_getBlock (chainProvider (map logAt [0, 1, 2, 3, 4, 5]) 5 5) ''finalized'' = Some 5
 \<and> toStrictFilter (chainProvider (map logAt [0, 1, 2, 3, 4, 5]) 5 5) (withRange anyFilter 0 0)
       (Tag ''finalized'') = Inr \<lparr>fromBlock = 0, toBlock = 5\<rparr>
 \<and> fst (getMissingRanges ''filter'' \<lparr>fromBlock = 0, toBlock = 5\<rparr>
          (snd (tidyUpRanges ''filter'' blockZeroWorld)))
     = Inr [\<lparr>fromBlock = 1, toBlock = 5\<rparr>]
 \<and> fst (fetchLogsToCache (chainProvider (map logAt [0, 1, 2, 3, 4, 5]) 5 5)
          (withRange anyFilter 0 0) 10 None blockZeroWorld) = Inr ()
 \<and> trace (snd (fetchLogsToCache (chainProvider (map logAt [0, 1, 2, 3, 4, 5]) 5 5)
                 (withRange anyFilter 0 0) 10 None blockZeroWorld))
     = trace blockZeroWorld @ [RpcGetLogs (withRange anyFilter 1 5)]
 \<and> fetched_ranges (db (snd (fetchLogsToCache (chainProvider (map logAt [0, 1, 2, 3, 4, 5]) 5 5)
                               (withRange anyFilter 0 0) 10 None blockZeroWorld)))
     = [(''filter'', \<lparr>fromBlock = 0, toBlock = 5\<rparr>)]"
  by code_simp

section \<open>getLogs and the last finalized block\<close>

text \<open>
  Claim C1 says that \<open>getLogs\<close> serves the finalized part of the range through the
  cache, fetches the rest live, never records a block above the last finalized one in
  \<open>fetched_ranges\<close>, and returns the cached records followed by the live ones in order.
  The code does otherwise when a bound it passes on is the number 0, which
  \<open>toStrictFilter\<close> takes for a missing bound. With block 0 the last finalized block and
  block 2 the latest, a request without bounds on an empty store records the range
  0 to 2 and returns the records of blocks 1 and 2 twice. With block 3 the last
  finalized block, block 5 the latest and the range 1 to 3 stored, a request without
  bounds records the range 0 to 5; that stored range is what an earlier call for blocks
  1 to 3 left.
\<close>

theorem getLogs_caches_unfinalized_blocks:
  "provider_getBlock (chainProvider [logAt 0, logAt 1, logAt 2] 0 2) ''finalized'' = Some 0
 \<and> fst (getLogs (chainProvider [logAt 0, logAt 1, logAt 2] 0 2) anyFilter 10 None None emptyWorld)
     = Inr [logAt 0, logAt 1, logAt 2, logAt 1, logAt 2]
 \<and> fetched_ranges (db (snd (getLogs (chainProvider [logAt 0, logAt 1, logAt 2] 0 2) anyFilter 10
                               None None emptyWorld)))
     = [(''filter'', \<lparr>fromBlock = 0, toBlock = 2\<rparr>)]
 \<and> getLogs (chainProvider (map logAt [0, 1, 2, 3, 4, 5]) 3 4) (withRange anyFilter 1 3) 2
       None None emptyWorld
     = (Inr [logAt 1, logAt 2, logAt 3], cachedWorld)
 \<and> provider_getBlock (chainProvider (map logAt [0, 1, 2, 3, 4, 5]) 3 5) ''finalized'' = Some 3
 \<and> fetched_ranges (db (snd (getLogs (chainProvider (map logAt [0, 1, 2, 3, 4, 5]) 3 5) anyFilter
                               10 None None cachedWorld)))
     = [(''filter'', \<lparr>fromBlock = 0, toBlock = 5\<rparr>)]"
  by code_simp

end
